theory Spec2Isabelle
  imports Complex_Main "HOL-Library.Multiset" "HOL-Library.Log_Nat"
begin

section \<open>The arithmetic of \<open>double\<close>\<close>

text \<open>
  The coordinates of a box are doubles that are numbers: real numbers in the model.
  \<open>min\<close>, \<open>max\<close> and the comparisons are exact on them. The two sentinels
  \<open>std::numeric_limits<double>::max()\<close> and \<open>lowest()\<close> are the real numbers of the same
  value.
\<close>

definition value_max :: real where
  "value_max = (2 - 1 / 2 ^ 52) * 2 ^ 1023"

definition value_lowest :: real where
  "value_lowest = - value_max"

text \<open>
  What the insertion into the R-tree computes from the coordinates (the areas, their
  increases, and what the split strategies derive from them) is rounded, and it may be
  infinite or not a number. \<open>fl\<close> rounds a real number to the nearest double, ties to
  the even significand: the doubles around \<open>x\<close> are the multiples of \<open>2\<^sup>e\<^sup>-\<^sup>5\<^sup>2\<close>, where
  \<open>2\<^sup>e \<le> |x| < 2\<^sup>e\<^sup>+\<^sup>1\<close> and \<open>e\<close> is at least \<open>-1022\<close>. The distance \<open>Nearest\<close>, the centre
  and the side length of a box and the sums and quotients of the partitioner are kept
  as real numbers: their rounding is not modelled.
\<close>

definition pow2 :: "int \<Rightarrow> real" where
  "pow2 e = (if 0 \<le> e then 2 ^ nat e else 1 / 2 ^ nat (- e))"

definition ilog2 :: "real \<Rightarrow> int" where
  "ilog2 a = (if 1 \<le> a then bitlen \<lfloor>a\<rfloor> - 1 else - bitlen (\<lceil>1 / a\<rceil> - 1))"

definition round_half_even :: "real \<Rightarrow> int" where
  "round_half_even q =
     (let f = \<lfloor>q\<rfloor>; r = q - of_int f
      in if r < 1 / 2 then f else if 1 / 2 < r then f + 1 else if even f then f else f + 1)"

definition fl :: "real \<Rightarrow> real" where
  "fl x = (if x = 0 then 0
           else let u = pow2 (max (ilog2 \<bar>x\<bar>) (- 1022) - 52)
                in of_int (round_half_even (x / u)) * u)"

text \<open>
  A computed double: a number, an infinity or not a number. \<open>fround\<close> is the double
  that an operation with the exact result \<open>x\<close> delivers. The sign of a zero is not
  kept: no operation of the model tells the two zeros apart.
\<close>

datatype fp = Fin real | PInf | MInf | NaN

definition fround :: "real \<Rightarrow> fp" where
  "fround x = (let y = fl x in if value_max < y then PInf else if y < value_lowest then MInf else Fin y)"

fun fsub :: "fp \<Rightarrow> fp \<Rightarrow> fp" where
  "fsub NaN y = NaN"
| "fsub x NaN = NaN"
| "fsub (Fin a) (Fin b) = fround (a - b)"
| "fsub (Fin a) PInf = MInf"
| "fsub (Fin a) MInf = PInf"
| "fsub PInf PInf = NaN"
| "fsub PInf y = PInf"
| "fsub MInf MInf = NaN"
| "fsub MInf y = MInf"

fun fmul :: "fp \<Rightarrow> fp \<Rightarrow> fp" where
  "fmul NaN y = NaN"
| "fmul x NaN = NaN"
| "fmul (Fin a) (Fin b) = fround (a * b)"
| "fmul (Fin a) PInf = (if a = 0 then NaN else if 0 < a then PInf else MInf)"
| "fmul (Fin a) MInf = (if a = 0 then NaN else if 0 < a then MInf else PInf)"
| "fmul PInf (Fin b) = (if b = 0 then NaN else if 0 < b then PInf else MInf)"
| "fmul MInf (Fin b) = (if b = 0 then NaN else if 0 < b then MInf else PInf)"
| "fmul PInf PInf = PInf"
| "fmul PInf MInf = MInf"
| "fmul MInf PInf = MInf"
| "fmul MInf MInf = PInf"

text \<open>
  A division by zero gives an infinity of the sign of the dividend, and \<open>0 / 0\<close> is not
  a number. The divisors of the model are differences \<open>max - min\<close>, whose zero is \<open>+0\<close>.
\<close>

fun fdiv :: "fp \<Rightarrow> fp \<Rightarrow> fp" where
  "fdiv NaN y = NaN"
| "fdiv x NaN = NaN"
| "fdiv (Fin a) (Fin b) =
     (if b = 0 then (if a = 0 then NaN else if 0 < a then PInf else MInf) else fround (a / b))"
| "fdiv (Fin a) PInf = Fin 0"
| "fdiv (Fin a) MInf = Fin 0"
| "fdiv PInf (Fin b) = (if 0 \<le> b then PInf else MInf)"
| "fdiv MInf (Fin b) = (if 0 \<le> b then MInf else PInf)"
| "fdiv x y = NaN"

fun fabs :: "fp \<Rightarrow> fp" where
  "fabs (Fin a) = Fin \<bar>a\<bar>"
| "fabs PInf = PInf"
| "fabs MInf = PInf"
| "fabs NaN = NaN"

text \<open>The comparisons \<open><\<close> and \<open>==\<close>: false as soon as one side is not a number.\<close>

fun flt :: "fp \<Rightarrow> fp \<Rightarrow> bool" where
  "flt NaN y = False"
| "flt x NaN = False"
| "flt (Fin a) (Fin b) = (a < b)"
| "flt x PInf = (x \<noteq> PInf)"
| "flt MInf y = (y \<noteq> MInf)"
| "flt x y = False"

fun feq :: "fp \<Rightarrow> fp \<Rightarrow> bool" where
  "feq NaN y = False"
| "feq x NaN = False"
| "feq x y = (x = y)"

section \<open>Bound: the axis-aligned box (spatial/bound/box.hpp)\<close>

text \<open>A \<open>std::array<T, N>\<close> is a list of length \<open>N\<close>.\<close>

record box =
  min_corner :: "real list"
  max_corner :: "real list"

definition box_min :: "box \<Rightarrow> nat \<Rightarrow> real" where
  "box_min b d = min_corner b ! d"

definition box_max :: "box \<Rightarrow> nat \<Rightarrow> real" where
  "box_max b d = max_corner b ! d"

definition center :: "box \<Rightarrow> nat \<Rightarrow> real" where
  "center b d = 0.5 * (max_corner b ! d + min_corner b ! d)"

definition box_length :: "box \<Rightarrow> nat \<Rightarrow> real" where
  "box_length b d = max_corner b ! d - min_corner b ! d"

text \<open>\<open>area\<close>: the product of the side lengths, started at dimension 0.\<close>

definition area :: "box \<Rightarrow> fp" where
  "area b = (case map2 (\<lambda>hi lo. fsub (Fin hi) (Fin lo)) (max_corner b) (min_corner b) of
               [] \<Rightarrow> Fin 0
             | s # ss \<Rightarrow> foldl (\<lambda>acc l. fmul acc l) s ss)"

text \<open>\<open>longest_dimension\<close>: the first index of the greatest side length.\<close>

fun longest_from :: "box \<Rightarrow> nat \<Rightarrow> nat \<Rightarrow> real \<Rightarrow> nat \<Rightarrow> nat" where
  "longest_from b 0 i cur_max ans = ans"
| "longest_from b (Suc k) i cur_max ans =
     (if box_length b i > cur_max
      then longest_from b k (Suc i) (box_length b i) i
      else longest_from b k (Suc i) cur_max ans)"

definition longest_dimension :: "box \<Rightarrow> nat" where
  "longest_dimension b = longest_from b (length (min_corner b) - 1) 1 (box_length b 0) 0"

definition box_set :: "box \<Rightarrow> real list \<Rightarrow> real list \<Rightarrow> box" where
  "box_set b mn mx = b\<lparr>min_corner := mn, max_corner := mx\<rparr>"

definition reset :: "box \<Rightarrow> box" where
  "reset b = b\<lparr>min_corner := map (\<lambda>_. value_max) (min_corner b),
               max_corner := map (\<lambda>_. value_lowest) (max_corner b)\<rparr>"

definition stretch :: "box \<Rightarrow> box \<Rightarrow> box" where
  "stretch b other = b\<lparr>min_corner := map2 min (min_corner b) (min_corner other),
                        max_corner := map2 max (max_corner b) (max_corner other)\<rparr>"

text \<open>
  \<open>next_larger\<close> moves every face to the adjacent double outwards with
  \<open>std::nexttoward\<close>. The two directions of \<open>nexttoward\<close> are parameters of the
  model: \<open>dn x\<close> is the double next below \<open>x\<close>, \<open>up x\<close> the one next above.
\<close>

definition next_larger :: "(real \<Rightarrow> real) \<Rightarrow> (real \<Rightarrow> real) \<Rightarrow> box \<Rightarrow> box" where
  "next_larger dn up b = b\<lparr>min_corner := map dn (min_corner b),
                           max_corner := map up (max_corner b)\<rparr>"

text \<open>
  \<open>std::equal(first1, last1, first2, p)\<close> over two arrays. The arrays of two boxes
  of one type have the same length; a second range that ends early is a read past its
  end, for which the model answers \<open>False\<close>.
\<close>

fun std_equal :: "('a \<Rightarrow> 'a \<Rightarrow> bool) \<Rightarrow> 'a list \<Rightarrow> 'a list \<Rightarrow> bool" where
  "std_equal p [] ys = True"
| "std_equal p (x # xs) [] = False"
| "std_equal p (x # xs) (y # ys) = (p x y \<and> std_equal p xs ys)"

definition Disjoint :: "box \<Rightarrow> box \<Rightarrow> bool" where
  "Disjoint a b = list_ex (\<lambda>i. box_max a i < box_min b i \<or> box_max b i < box_min a i)
                    [0 ..< length (min_corner a)]"

definition Intersects :: "box \<Rightarrow> box \<Rightarrow> bool" where
  "Intersects a b \<longleftrightarrow> std_equal (\<le>) (min_corner a) (max_corner b)
                    \<and> std_equal (\<ge>) (max_corner a) (min_corner b)"

definition Overlaps :: "box \<Rightarrow> box \<Rightarrow> bool" where
  "Overlaps a b \<longleftrightarrow> std_equal (<) (min_corner a) (max_corner b)
                  \<and> std_equal (>) (max_corner a) (min_corner b)"

definition Contains :: "box \<Rightarrow> box \<Rightarrow> bool" where
  "Contains a b \<longleftrightarrow> std_equal (\<le>) (min_corner a) (min_corner b)
                  \<and> std_equal (\<ge>) (max_corner a) (max_corner b)"

definition ContainsNonInclusive :: "box \<Rightarrow> box \<Rightarrow> bool" where
  "ContainsNonInclusive a b \<longleftrightarrow> std_equal (\<le>) (min_corner a) (min_corner b)
                              \<and> std_equal (>) (max_corner a) (max_corner b)"

definition Covers :: "box \<Rightarrow> box \<Rightarrow> bool" where
  "Covers a b \<longleftrightarrow> std_equal (<) (min_corner a) (min_corner b)
                \<and> std_equal (>) (max_corner a) (max_corner b)"

definition Equals :: "box \<Rightarrow> box \<Rightarrow> bool" where
  "Equals a b \<longleftrightarrow> std_equal (=) (min_corner a) (min_corner b)
                \<and> std_equal (=) (max_corner a) (max_corner b)"

text \<open>\<open>Nearest\<close>: the squared distance between the closest points of two boxes.\<close>

definition Nearest :: "box \<Rightarrow> box \<Rightarrow> real" where
  "Nearest a b = foldl (\<lambda>dist_sq i.
       let b_bigger = max 0 (min_corner b ! i - max_corner a ! i);
           b_smaller = max 0 (min_corner a ! i - max_corner b ! i);
           b_dist = max b_bigger b_smaller
       in dist_sq + b_dist ^ 2) 0 [0 ..< length (min_corner a)]"

definition box_Union :: "box \<Rightarrow> box \<Rightarrow> box" where
  "box_Union a b = stretch a b"

definition IncreaseToHold :: "box \<Rightarrow> box \<Rightarrow> fp" where
  "IncreaseToHold a b = fsub (area (box_Union a b)) (area a)"

text \<open>\<open>Box::less\<close>: true as soon as one dimension has \<open>a.min(i) < b.min(i)\<close>.\<close>

definition box_less :: "box \<Rightarrow> box \<Rightarrow> bool" where
  "box_less a b = list_ex (\<lambda>i. box_min a i < box_min b i) [0 ..< length (min_corner a)]"


section \<open>Predicates (spatial/shared/predicate)\<close>

datatype tag = disjoint_tag | intersects_tag | overlaps_tag | contains_tag
  | contained_by_tag | contained_ni_by_tag | covers_tag | covered_by_tag
  | equals_tag | all_tag

fun dispatch :: "tag \<Rightarrow> box \<Rightarrow> box \<Rightarrow> bool" where
  "dispatch disjoint_tag a b = Disjoint a b"
| "dispatch intersects_tag a b = Intersects a b"
| "dispatch overlaps_tag a b = Overlaps a b"
| "dispatch contains_tag a b = Contains a b"
| "dispatch contained_by_tag a b = Contains b a"
| "dispatch contained_ni_by_tag a b = ContainsNonInclusive b a"
| "dispatch covers_tag a b = Covers a b"
| "dispatch covered_by_tag a b = Covers b a"
| "dispatch equals_tag a b = Equals a b"
| "dispatch all_tag a b = True"

record spatial_predicate =
  sp_bound :: box
  sp_node_op :: tag
  sp_leaf_op :: tag

definition spatial_apply :: "spatial_predicate \<Rightarrow> box \<Rightarrow> bool \<Rightarrow> bool" where
  "spatial_apply P b is_leaf =
     (if is_leaf then dispatch (sp_leaf_op P) b (sp_bound P)
      else dispatch (sp_node_op P) b (sp_bound P))"

definition pred_Intersects :: "box \<Rightarrow> spatial_predicate" where
  "pred_Intersects b = \<lparr>sp_bound = b, sp_node_op = intersects_tag, sp_leaf_op = intersects_tag\<rparr>"

definition pred_ContainedByNonInclusive :: "box \<Rightarrow> spatial_predicate" where
  "pred_ContainedByNonInclusive b =
     \<lparr>sp_bound = b, sp_node_op = intersects_tag, sp_leaf_op = contained_ni_by_tag\<rparr>"

text \<open>
  The distance predicate made by the factory \<open>Nearest(bound, n)\<close>: node and leaf
  operation are both \<open>to_nearest_tag\<close>, which dispatches to \<open>bound::Nearest\<close>.
\<close>

record distance_predicate =
  dp_bound :: box
  dp_count :: nat

definition distance_apply :: "distance_predicate \<Rightarrow> box \<Rightarrow> bool \<Rightarrow> real" where
  "distance_apply P b is_leaf = (if is_leaf then Nearest b (dp_bound P) else Nearest b (dp_bound P))"

definition pred_Nearest :: "box \<Rightarrow> nat \<Rightarrow> distance_predicate" where
  "pred_Nearest b n = \<lparr>dp_bound = b, dp_count = n\<rparr>"

section \<open>TruncatedMultiSet (spatial/common/truncated\_multiset.hpp)\<close>

text \<open>
  A \<open>std::multiset\<close> of pairs ordered by \<open>LessPair<0>\<close> is a list sorted by the
  first component; \<open>emplace\<close> puts the new element at the upper bound of the
  elements equivalent to it.
\<close>

definition ms_emplace :: "real \<times> 'a \<Rightarrow> (real \<times> 'a) list \<Rightarrow> (real \<times> 'a) list" where
  "ms_emplace x xs = takeWhile (\<lambda>y. \<not> fst x < fst y) xs @ x # dropWhile (\<lambda>y. \<not> fst x < fst y) xs"

record 'a truncated_multiset =
  tms_data :: "(real \<times> 'a) list"
  tms_count :: nat

definition tms_truncate :: "'a truncated_multiset \<Rightarrow> 'a truncated_multiset" where
  "tms_truncate s = (if length (tms_data s) > tms_count s
                  then s\<lparr>tms_data := take (tms_count s) (tms_data s)\<rparr> else s)"

definition tms_emplace :: "real \<times> 'a \<Rightarrow> 'a truncated_multiset \<Rightarrow> 'a truncated_multiset" where
  "tms_emplace x s = tms_truncate (s\<lparr>tms_data := ms_emplace x (tms_data s)\<rparr>)"

section \<open>R-tree nodes (rtree/node.hpp, page.hpp, leaf.hpp)\<close>

text \<open>
  A node is a leaf holding one value or a page holding its children and its cached
  bound. A value is a pair whose first component is its bound (\<open>pair_extractor\<close>).
  Ownership runs from a page to its children, so the node graph is a tree and is
  modelled as one. The parent pointer of a node is not stored: in the functions that
  walk upwards the way back to the root is the list of the frames passed on the way
  down. \<open>NDim\<close> is 3, as in every instantiation of the repository.
\<close>

definition ndim :: nat where
  "ndim = 3"

datatype 'k node = Leaf "box \<times> 'k" | Page (nodes: "'k node list") (bound: box)

fun isLeaf :: "'k node \<Rightarrow> bool" where
  "isLeaf (Leaf v) = True"
| "isLeaf (Page cs b) = False"

fun getBound :: "'k node \<Rightarrow> box" where
  "getBound (Leaf v) = fst v"
| "getBound (Page cs b) = b"

fun node_size :: "'k node \<Rightarrow> nat" where
  "node_size (Leaf v) = 0"
| "node_size (Page cs b) = length cs"

definition node_area :: "'k node \<Rightarrow> fp" where
  "node_area n = area (getBound n)"

text \<open>\<open>Page::restretch\<close>: reset the bound, then stretch it over every child.\<close>

definition page_restretch :: "'k node list \<Rightarrow> box \<Rightarrow> box" where
  "page_restretch cs b = foldl (\<lambda>acc node_ptr. stretch acc (getBound node_ptr)) (reset b) cs"

text \<open>\<open>Node()\<close>: an empty page whose bound has been reset.\<close>

definition new_node :: "'k node" where
  "new_node = Page [] (page_restretch ([] :: 'k node list)
                 \<lparr>min_corner = replicate ndim 0, max_corner = replicate ndim 0\<rparr>)"

text \<open>
  The page operations assert \<open>isPage()\<close>; on a leaf \<open>std::get<page_type>\<close> throws.
  \<open>None\<close> is that failure, and every other undefined step of the source below.
\<close>

fun node_insert :: "'k node \<Rightarrow> 'k node \<Rightarrow> 'k node option" where
  "node_insert (Leaf v) child_ptr = None"
| "node_insert (Page cs b) child_ptr = Some (Page (cs @ [child_ptr]) (stretch b (getBound child_ptr)))"

fun node_stretch :: "'k node \<Rightarrow> box \<Rightarrow> 'k node option" where
  "node_stretch (Leaf v) other = None"
| "node_stretch (Page cs b) other = Some (Page cs (stretch b other))"

fun node_restretch :: "'k node \<Rightarrow> 'k node option" where
  "node_restretch (Leaf v) = None"
| "node_restretch (Page cs b) = Some (Page cs (page_restretch cs b))"

text \<open>
  Inside \<open>split_node\<close> the children of the page are handled through their
  \<open>shared_ptr\<close>s. A pointer is the position the child had in the list when
  \<open>split_node\<close> was entered, kept beside the child; \<open>std::list::remove(ptr)\<close>
  drops every entry that holds this pointer.
\<close>

type_synonym 'k children = "(nat \<times> 'k node) list"

definition list_remove :: "nat \<Rightarrow> 'k children \<Rightarrow> 'k children" where
  "list_remove child_ptr cs = filter (\<lambda>c. fst c \<noteq> child_ptr) cs"

section \<open>Split strategy (rtree/quadratic.hpp)\<close>

text \<open>
  \<open>Algorithm\<close> is a template over the splitting type, which gives the two constants
  and the two pick functions. \<open>pick_seeds\<close> gets the bound and the children of the
  parent and answers two child pointers, \<open>pick_next\<close> answers a child pointer and
  the node to place it into; \<open>None\<close> is the null pointer.
\<close>

datatype place = IntoA | IntoB

record 'k splitting =
  max_children :: nat
  min_children :: nat
  pick_seeds :: "box \<Rightarrow> 'k children \<Rightarrow> (nat \<times> nat) option"
  pick_next :: "'k children \<Rightarrow> 'k node \<Rightarrow> 'k node \<Rightarrow> (nat \<times> place) option"

text \<open>The body of the inner loop of \<open>pick_seeds\<close>, for the pair \<open>(it, jt)\<close>.\<close>

definition quadratic_seeds_step ::
  "nat \<times> 'k node \<Rightarrow> fp \<times> (nat \<times> nat) option \<Rightarrow> nat \<times> 'k node \<Rightarrow> fp \<times> (nat \<times> nat) option" where
  "quadratic_seeds_step it st jt =
     (case st of (max_wasted_area, ans) \<Rightarrow>
        let i_area = node_area (snd it);
            j_area = node_area (snd jt);
            c_area = area (box_Union (getBound (snd it)) (getBound (snd jt)));
            wasted_area = fsub (fsub c_area i_area) j_area
        in if flt max_wasted_area wasted_area then (wasted_area, Some (fst it, fst jt))
           else (max_wasted_area, ans))"

fun quadratic_seeds_outer ::
  "'k children \<Rightarrow> fp \<times> (nat \<times> nat) option \<Rightarrow> fp \<times> (nat \<times> nat) option" where
  "quadratic_seeds_outer [] st = st"
| "quadratic_seeds_outer (it # rest) st =
     quadratic_seeds_outer rest (foldl (quadratic_seeds_step it) st rest)"

definition quadratic_pick_seeds :: "box \<Rightarrow> 'k children \<Rightarrow> (nat \<times> nat) option" where
  "quadratic_pick_seeds parent_bound cs = snd (quadratic_seeds_outer cs (Fin value_lowest, None))"

text \<open>The body of the loop of \<open>pick_next\<close>.\<close>

definition quadratic_next_step ::
  "'k node \<Rightarrow> 'k node \<Rightarrow> fp \<times> (nat \<times> place) option \<Rightarrow> nat \<times> 'k node
     \<Rightarrow> fp \<times> (nat \<times> place) option" where
  "quadratic_next_step a_node b_node st child =
     (case st of (max_increase, ans) \<Rightarrow>
        let a_increased_area = IncreaseToHold (getBound a_node) (getBound (snd child));
            b_increased_area = IncreaseToHold (getBound b_node) (getBound (snd child));
            diff = fabs (fsub a_increased_area b_increased_area)
        in if flt max_increase diff
           then (diff, Some (fst child, if flt a_increased_area b_increased_area then IntoA else IntoB))
           else (max_increase, ans))"

definition quadratic_pick_next :: "'k children \<Rightarrow> 'k node \<Rightarrow> 'k node \<Rightarrow> (nat \<times> place) option" where
  "quadratic_pick_next cs a_node b_node =
     snd (foldl (quadratic_next_step a_node b_node) (Fin value_lowest, None) cs)"

definition Quadratic :: "nat \<Rightarrow> nat \<Rightarrow> 'k splitting" where
  "Quadratic MaxChildren MinChildren =
     \<lparr>max_children = MaxChildren, min_children = MinChildren,
      pick_seeds = quadratic_pick_seeds, pick_next = quadratic_pick_next\<rparr>"

section \<open>Split strategy (rtree/linear.hpp)\<close>

text \<open>
  The inner loop of \<open>pick_seeds\<close>, for the dimension \<open>i\<close>: the child of the greatest
  minimum and the child of the least maximum, with these two values.
\<close>

definition linear_child_step ::
  "nat \<Rightarrow> (nat option \<times> real) \<times> (nat option \<times> real) \<Rightarrow> nat \<times> 'k node
     \<Rightarrow> (nat option \<times> real) \<times> (nat option \<times> real)" where
  "linear_child_step i st child =
     (case st of ((maximum_min_child, maximum_min_value), (minimum_max_child, minimum_max_value)) \<Rightarrow>
        ((if box_min (getBound (snd child)) i > maximum_min_value
          then (Some (fst child), box_min (getBound (snd child)) i)
          else (maximum_min_child, maximum_min_value)),
         (if box_max (getBound (snd child)) i < minimum_max_value
          then (Some (fst child), box_max (getBound (snd child)) i)
          else (minimum_max_child, minimum_max_value))))"

text \<open>The body of the loop over the dimensions.\<close>

definition linear_dim_step ::
  "box \<Rightarrow> 'k children \<Rightarrow> fp \<times> (nat option \<times> nat option) \<Rightarrow> nat
     \<Rightarrow> fp \<times> (nat option \<times> nat option)" where
  "linear_dim_step parent_bound cs st i =
     (case st of (max_scaled_length, ans) \<Rightarrow>
        (case foldl (linear_child_step i) ((None, value_lowest), (None, value_max)) cs of
           ((maximum_min_child, maximum_min_value), (minimum_max_child, minimum_max_value)) \<Rightarrow>
             let scaled_length =
                   fdiv (fabs (fsub (Fin minimum_max_value) (Fin maximum_min_value)))
                        (fsub (Fin (box_max parent_bound i)) (Fin (box_min parent_bound i)))
             in if flt max_scaled_length scaled_length
                then (scaled_length, (minimum_max_child, maximum_min_child))
                else (max_scaled_length, ans)))"

text \<open>
  \<open>pick_seeds\<close>: the pair found by the loop, its second pointer replaced by the front
  or the back of the list when the two are the same, and the three assertions.
\<close>

definition linear_pick_seeds :: "box \<Rightarrow> 'k children \<Rightarrow> (nat \<times> nat) option" where
  "linear_pick_seeds parent_bound cs =
     (if length cs \<le> 1 then None
      else (case snd (foldl (linear_dim_step parent_bound cs) (Fin value_lowest, (None, None))
                       [0 ..< ndim]) of
              (first, second) \<Rightarrow>
                (case (first,
                       if first = second
                       then (if first = Some (fst (hd cs)) then Some (fst (last cs))
                             else Some (fst (hd cs)))
                       else second) of
                   (Some seed_a, Some seed_b) \<Rightarrow> if seed_a \<noteq> seed_b then Some (seed_a, seed_b) else None
                 | _ \<Rightarrow> None)))"

text \<open>\<open>pick_next\<close>: the first child, into the node that it enlarges less.\<close>

definition linear_pick_next :: "'k children \<Rightarrow> 'k node \<Rightarrow> 'k node \<Rightarrow> (nat \<times> place) option" where
  "linear_pick_next cs a_node b_node =
     (case cs of
        [] \<Rightarrow> None
      | next_child # rest \<Rightarrow>
          let a_increased_area = IncreaseToHold (getBound a_node) (getBound (snd next_child));
              b_increased_area = IncreaseToHold (getBound b_node) (getBound (snd next_child))
          in Some (fst next_child, if flt a_increased_area b_increased_area then IntoA else IntoB))"

definition Linear :: "nat \<Rightarrow> nat \<Rightarrow> 'k splitting" where
  "Linear MaxChildren MinChildren =
     \<lparr>max_children = MaxChildren, min_children = MinChildren,
      pick_seeds = linear_pick_seeds, pick_next = linear_pick_next\<rparr>"


section \<open>Algorithm (rtree/algorithm.hpp)\<close>

text \<open>
  One child leaves the parent's list for one of the two new nodes:
  \<open>into->insert(child); parent->remove(child)\<close>.
\<close>

definition take_child :: "nat \<Rightarrow> 'k children \<Rightarrow> 'k node \<Rightarrow> ('k children \<times> 'k node) option" where
  "take_child child_ptr parent into =
     (case map_of parent child_ptr of
        None \<Rightarrow> None
      | Some child \<Rightarrow> (case node_insert into child of
           None \<Rightarrow> None
         | Some into' \<Rightarrow> Some (list_remove child_ptr parent, into')))"

lemma take_child_length:
  assumes "take_child t parent into = Some (parent', into')"
  shows "length parent' < length parent"
proof -
  from assms obtain c where c: "map_of parent t = Some c" and p: "parent' = list_remove t parent"
    by (auto simp: take_child_def split: option.splits)
  from c have "(t, c) \<in> set parent" by (rule map_of_SomeD)
  then have "length (filter (\<lambda>c. fst c \<noteq> t) parent) < length parent"
    by (intro length_filter_less[of "(t, c)"]) auto
  with p show ?thesis by (simp add: list_remove_def)
qed

text \<open>The loop of \<open>split_node\<close> that places the children one at a time.\<close>

function split_loop ::
  "'k splitting \<Rightarrow> 'k children \<Rightarrow> 'k node \<Rightarrow> 'k node \<Rightarrow> ('k children \<times> 'k node \<times> 'k node) option" where
  "split_loop S parent a b =
     (if length parent > 0
         \<and> length parent + node_size a > min_children S
         \<and> length parent + node_size b > min_children S
      then (case pick_next S parent a b of
              None \<Rightarrow> None
            | Some (next_child, IntoA) \<Rightarrow>
                (case take_child next_child parent a of
                   None \<Rightarrow> None
                 | Some (parent', a') \<Rightarrow> split_loop S parent' a' b)
            | Some (next_child, IntoB) \<Rightarrow>
                (case take_child next_child parent b of
                   None \<Rightarrow> None
                 | Some (parent', b') \<Rightarrow> split_loop S parent' a b'))
      else Some (parent, a, b))"
  by pat_completeness auto
termination
  by (relation "measure (\<lambda>(S, parent, a, b). length parent)")
     (auto dest: take_child_length)

declare split_loop.simps [simp del]

text \<open>The do-while that moves everything left in the parent into one node.\<close>

function dump_into :: "'k children \<Rightarrow> 'k node \<Rightarrow> 'k node option" where
  "dump_into [] into = Some into"
| "dump_into (c # cs) into =
     (case node_insert into (snd c) of
        None \<Rightarrow> None
      | Some into' \<Rightarrow> dump_into (list_remove (fst c) (c # cs)) into')"
  by pat_completeness auto
termination
  by (relation "measure (\<lambda>(parent, into). length parent)")
     (auto simp: list_remove_def less_Suc_eq_le)

text \<open>
  \<open>split_node\<close> answers the two new nodes and the parent as it is left. The five
  assertions at its end are the last test: where one fails the answer is \<open>None\<close>.
\<close>

definition split_node ::
  "'k splitting \<Rightarrow> 'k node \<Rightarrow> ('k node \<times> 'k node \<times> 'k node) option" where
  "split_node S parent_ptr =
     (case parent_ptr of
        Leaf v \<Rightarrow> None
      | Page cs pb \<Rightarrow>
         (let parent = enumerate 0 cs in
          case pick_seeds S pb parent of
            None \<Rightarrow> None
          | Some (seed_a, seed_b) \<Rightarrow>
             (case take_child seed_a parent new_node of
                None \<Rightarrow> None
              | Some (parent, a_node) \<Rightarrow>
                 (case take_child seed_b parent new_node of
                    None \<Rightarrow> None
                  | Some (parent, b_node) \<Rightarrow>
                     (case split_loop S parent a_node b_node of
                        None \<Rightarrow> None
                      | Some (parent, a_node, b_node) \<Rightarrow>
                         (case (if length parent > 0
                                then (if node_size a_node < min_children S
                                      then map_option (\<lambda>a'. (a', b_node)) (dump_into parent a_node)
                                      else map_option (\<lambda>b'. (a_node, b')) (dump_into parent b_node))
                                else Some (a_node, b_node)) of
                            None \<Rightarrow> None
                          | Some (a_node, b_node) \<Rightarrow>
                              if node_size a_node \<ge> min_children S
                                 \<and> node_size b_node \<ge> min_children S
                                 \<and> node_size a_node \<le> max_children S
                                 \<and> node_size b_node \<le> max_children S
                              then Some (a_node, b_node, Page [] pb)
                              else None))))))"

text \<open>
  \<open>find_best_fit_in_node\<close> answers a child of the page, here by its position. The
  loop keeps \<open>best_node\<close> (null at first) and \<open>current_minimum\<close>; a tie met while
  \<open>best_node\<close> is still null fails \<open>assert(best_node)\<close>.
\<close>

definition best_fit_step ::
  "box \<Rightarrow> ((nat \<times> 'k node) option \<times> fp) option \<Rightarrow> nat \<times> 'k node
     \<Rightarrow> ((nat \<times> 'k node) option \<times> fp) option" where
  "best_fit_step bounding_box st child =
     (case st of
        None \<Rightarrow> None
      | Some (best_node, current_minimum) \<Rightarrow>
          let area_to_enlarge = IncreaseToHold (getBound (snd child)) bounding_box
          in if flt area_to_enlarge current_minimum then Some (Some child, area_to_enlarge)
             else if feq area_to_enlarge current_minimum
             then (case best_node of
                     None \<Rightarrow> None
                   | Some best \<Rightarrow>
                       if flt (node_area (snd child)) (node_area (snd best))
                          \<or> node_size (snd child) < node_size (snd best)
                       then Some (Some child, current_minimum)
                       else Some (best_node, current_minimum))
             else Some (best_node, current_minimum))"

definition find_best_fit_in_node :: "box \<Rightarrow> 'k node \<Rightarrow> nat option" where
  "find_best_fit_in_node bounding_box current_node =
     (case current_node of
        Leaf v \<Rightarrow> None
      | Page cs b \<Rightarrow>
         (case cs of
            [] \<Rightarrow> None
          | front # rest \<Rightarrow>
              if isLeaf front then Some 0
              else (case foldl (best_fit_step bounding_box) (Some (None, Fin value_max)) (enumerate 0 cs) of
                      None \<Rightarrow> None
                    | Some (best_node, current_minimum) \<Rightarrow> map_option fst best_node)))"

text \<open>
  A frame is what a page is apart from one child: its bound, the children before
  that child and the children after it.
\<close>

type_synonym 'k frame = "box \<times> 'k node list \<times> 'k node list"

lemma size_nth_child: "i < length cs \<Longrightarrow> size (cs ! i) < Suc (size_list size cs)"
proof (induction cs arbitrary: i)
  case Nil
  then show ?case by simp
next
  case (Cons c cs)
  show ?case
  proof (cases i)
    case 0
    then show ?thesis by simp
  next
    case (Suc j)
    with Cons.prems have "j < length cs" by simp
    from Cons.IH[OF this] Suc show ?thesis by simp
  qed
qed

text \<open>
  The descent of \<open>find_best_fit_in_tree\<close>: it ends at the first leaf it reaches
  and answers that leaf's parent, with the frames above it.
\<close>

function descend :: "box \<Rightarrow> 'k node \<Rightarrow> 'k frame list \<Rightarrow> ('k node \<times> 'k frame list) option" where
  "descend bounding_box (Leaf v) path = None"
| "descend bounding_box (Page cs b) path =
     (case find_best_fit_in_node bounding_box (Page cs b) of
        None \<Rightarrow> None
      | Some i \<Rightarrow>
          if i < length cs
          then (if isLeaf (cs ! i) then Some (Page cs b, path)
                else descend bounding_box (cs ! i) ((b, take i cs, drop (Suc i) cs) # path))
          else None)"
  by pat_completeness auto
termination
  by (relation "measure (\<lambda>(bb, n, path). size n)") (auto simp: size_nth_child)

declare descend.simps [simp del]

definition find_best_fit_in_tree ::
  "'k node option \<Rightarrow> box \<Rightarrow> ('k node \<times> 'k frame list) option" where
  "find_best_fit_in_tree starting_node bounding_box =
     (case starting_node of
        None \<Rightarrow> Some (new_node, [])
      | Some n \<Rightarrow> descend bounding_box n [])"

text \<open>
  \<open>expand_tree\<close> walks from the page that got the new child up to the root. A page
  that overflows is split and replaced in its parent by the two halves, which go to
  the end of the parent's list; every page above the starting node is stretched by
  the starting node's bound.
\<close>

fun expand_tree :: "'k splitting \<Rightarrow> 'k node \<Rightarrow> 'k frame list \<Rightarrow> box \<Rightarrow> 'k node option" where
  "expand_tree S current [] starting_bound =
     (if node_size current > max_children S
      then (case split_node S current of
              None \<Rightarrow> None
            | Some (a, b, emptied) \<Rightarrow>
                (case node_insert new_node a of
                   None \<Rightarrow> None
                 | Some new_root \<Rightarrow> node_insert new_root b))
      else Some current)"
| "expand_tree S current ((pb, before, after) # path) starting_bound =
     (case (if node_size current > max_children S
            then (case split_node S current of
                    None \<Rightarrow> None
                  | Some (a, b, emptied) \<Rightarrow>
                      (case node_insert (Page (before @ after) pb) a of
                         None \<Rightarrow> None
                       | Some parent_node \<Rightarrow> node_insert parent_node b))
            else Some (Page (before @ current # after) pb)) of
        None \<Rightarrow> None
      | Some parent_node \<Rightarrow>
          (case node_stretch parent_node starting_bound of
             None \<Rightarrow> None
           | Some parent_node \<Rightarrow> expand_tree S parent_node path starting_bound))"

definition tree_insert :: "'k splitting \<Rightarrow> 'k node option \<Rightarrow> 'k node \<Rightarrow> 'k node option" where
  "tree_insert S starting_node place_node =
     (case find_best_fit_in_tree starting_node (getBound place_node) of
        None \<Rightarrow> None
      | Some (best_node, path) \<Rightarrow>
          (case node_insert best_node place_node of
             None \<Rightarrow> None
           | Some best_node \<Rightarrow> expand_tree S best_node path (getBound best_node)))"

text \<open>
  The upward loop of \<open>condense_tree\<close>: a page that has fewer than \<open>min_children\<close>
  children leaves its parent and its children become orphans; every page above the
  starting node is restretched.
\<close>

fun condense_up ::
  "'k splitting \<Rightarrow> 'k node \<Rightarrow> 'k frame list \<Rightarrow> 'k node list \<Rightarrow> ('k node \<times> 'k node list) option" where
  "condense_up S current [] orphan_node_list = Some (current, orphan_node_list)"
| "condense_up S current ((pb, before, after) # path) orphan_node_list =
     (if node_size current < min_children S
      then (case node_restretch (Page (before @ after) pb) of
              None \<Rightarrow> None
            | Some parent_node \<Rightarrow>
                condense_up S parent_node path (orphan_node_list @ nodes current))
      else (case node_restretch (Page (before @ current # after) pb) of
              None \<Rightarrow> None
            | Some parent_node \<Rightarrow> condense_up S parent_node path orphan_node_list))"

fun reinsert_orphans :: "'k splitting \<Rightarrow> 'k node \<Rightarrow> 'k node list \<Rightarrow> 'k node option" where
  "reinsert_orphans S current [] = Some current"
| "reinsert_orphans S current (orphan # orphans) =
     (case tree_insert S (Some current) orphan of
        None \<Rightarrow> None
      | Some current' \<Rightarrow> reinsert_orphans S current' orphans)"

definition condense_tree :: "'k splitting \<Rightarrow> 'k node \<Rightarrow> 'k frame list \<Rightarrow> 'k node option" where
  "condense_tree S starting_node path =
     (case condense_up S starting_node path [] of
        None \<Rightarrow> None
      | Some (current, orphan_node_list) \<Rightarrow>
          (case reinsert_orphans S current orphan_node_list of
             None \<Rightarrow> None
           | Some current \<Rightarrow>
               (case current of
                  Leaf v \<Rightarrow> Some current
                | Page cs b \<Rightarrow>
                    (case cs of
                       [front] \<Rightarrow> if \<not> isLeaf front then Some front else Some current
                     | _ \<Rightarrow> Some current))))"

text \<open>
  \<open>remove\<close>: every child of the best-fit page is asserted to be a leaf; those whose
  bound and value equal the given ones leave the page.
\<close>

definition tree_remove :: "'k splitting \<Rightarrow> 'k node option \<Rightarrow> 'k node \<Rightarrow> 'k node option" where
  "tree_remove S starting_node remove_node =
     (case find_best_fit_in_tree starting_node (getBound remove_node) of
        None \<Rightarrow> None
      | Some (best_node, path) \<Rightarrow>
          (case best_node of
             Leaf v \<Rightarrow> None
           | Page cs b \<Rightarrow>
               if list_all isLeaf cs
               then (case node_restretch (Page (filter (\<lambda>child. child \<noteq> remove_node) cs) b) of
                       None \<Rightarrow> None
                     | Some best_node \<Rightarrow> condense_tree S best_node path)
               else None))"

section \<open>RTree (index/rtree.hpp)\<close>

record 'k rtree =
  root_node_ptr :: "'k node option"

definition RTree_new :: "'k rtree" where
  "RTree_new = \<lparr>root_node_ptr = None\<rparr>"

definition RTree_insert :: "'k splitting \<Rightarrow> box \<times> 'k \<Rightarrow> 'k rtree \<Rightarrow> 'k rtree option" where
  "RTree_insert S v t =
     map_option (\<lambda>r. t\<lparr>root_node_ptr := Some r\<rparr>) (tree_insert S (root_node_ptr t) (Leaf v))"

definition RTree_remove :: "'k splitting \<Rightarrow> box \<times> 'k \<Rightarrow> 'k rtree \<Rightarrow> 'k rtree option" where
  "RTree_remove S v t =
     map_option (\<lambda>r. t\<lparr>root_node_ptr := Some r\<rparr>) (tree_remove S (root_node_ptr t) (Leaf v))"

text \<open>\<open>empty()\<close> returns the root pointer converted to \<open>bool\<close>.\<close>

definition RTree_empty :: "'k rtree \<Rightarrow> bool" where
  "RTree_empty t = (root_node_ptr t \<noteq> None)"

definition RTree_bounds :: "'k rtree \<Rightarrow> box option" where
  "RTree_bounds t = map_option getBound (root_node_ptr t)"


section \<open>RCB partitioner (partition/rcb.hpp)\<close>

text \<open>A point of the cloud is the box whose two corners are the point.\<close>

definition point_box :: "real list \<Rightarrow> box" where
  "point_box point = \<lparr>min_corner = point, max_corner = point\<rparr>"

text \<open>
  The two boxes built from a pending box and the split value: \<open>hgh_bound\<close> gets the
  split value as its minimum in the split dimension, \<open>low_bound\<close> as its maximum.
\<close>

definition split_box :: "box \<Rightarrow> nat \<Rightarrow> real \<Rightarrow> box \<times> box" where
  "split_box search_box long_dim weighted_split =
     (let hgh_bound = search_box;
          new_min_corner = (min_corner hgh_bound)[long_dim := weighted_split];
          hgh_bound = box_set hgh_bound new_min_corner (max_corner hgh_bound);
          low_bound = search_box;
          new_max_corner = (max_corner low_bound)[long_dim := weighted_split];
          low_bound = box_set low_bound (min_corner low_bound) new_max_corner
      in (low_bound, hgh_bound))"

section \<open>Exhaustive index (index/exhaustive.hpp)\<close>

text \<open>
  The flat list of values and the bound of the index. \<open>EqualOp\<close> is
  \<open>std::equal_to\<close>, equality of values.
\<close>

record 'k exhaustive =
  ex_values :: "(box \<times> 'k) list"
  ex_bound :: box

definition ex_insert :: "box \<times> 'k \<Rightarrow> 'k exhaustive \<Rightarrow> 'k exhaustive" where
  "ex_insert v s = s\<lparr>ex_bound := stretch (ex_bound s) (fst v), ex_values := ex_values s @ [v]\<rparr>"

text \<open>
  \<open>std::remove_if\<close> over a range: the elements that stay are moved to the front, the
  range keeps its length, and the iterator to the new logical end is returned.
\<close>

definition find_if :: "('a \<Rightarrow> bool) \<Rightarrow> 'a list \<Rightarrow> nat" where
  "find_if p xs = length (takeWhile (\<lambda>x. \<not> p x) xs)"

definition std_remove_if :: "('a \<Rightarrow> bool) \<Rightarrow> 'a list \<Rightarrow> 'a list \<times> nat" where
  "std_remove_if p xs =
     (let first = find_if p xs in
      if first \<noteq> length xs
      then foldl (\<lambda>(ys, first) i. if \<not> p (ys ! i) then (ys[first := ys ! i], Suc first)
                                   else (ys, first))
             (xs, first) [Suc first ..< length xs]
      else (xs, first))"

definition ex_remove_value :: "box \<times> 'k \<Rightarrow> 'k exhaustive \<Rightarrow> 'k exhaustive" where
  "ex_remove_value v s = s\<lparr>ex_values := fst (std_remove_if (\<lambda>x. v = x) (ex_values s))\<rparr>"

definition ex_restretch :: "'k exhaustive \<Rightarrow> 'k exhaustive" where
  "ex_restretch s = s\<lparr>ex_bound := foldl (\<lambda>b v. stretch b (fst v)) (reset (ex_bound s)) (ex_values s)\<rparr>"

definition ex_remove :: "box \<times> 'k \<Rightarrow> 'k exhaustive \<Rightarrow> 'k exhaustive" where
  "ex_remove v s = ex_restretch (ex_remove_value v s)"

definition ex_size :: "'k exhaustive \<Rightarrow> nat" where
  "ex_size s = length (ex_values s)"

definition ex_query_spatial :: "(box \<Rightarrow> bool \<Rightarrow> bool) \<Rightarrow> 'k exhaustive \<Rightarrow> (box \<times> 'k) list \<times> nat" where
  "ex_query_spatial pred s =
     foldl (\<lambda>(out, cnt) v. if pred (fst v) True then (out @ [v], Suc cnt) else (out, cnt))
       ([], 0) (ex_values s)"

section \<open>UniqueMap (test/system/system.cpp)\<close>

text \<open>
  The \<open>std::unordered_map\<close> from value to first-seen index is a map; two values are
  the same key when they are equal. \<open>vout.resize(n)\<close> cuts the output vector or
  fills it up with a value-initialised element \<open>dflt\<close>. An index outside its vector
  is undefined in the source and \<open>None\<close> here.
\<close>

record unique_map =
  unique_idx :: "nat list"
  non_unique_map :: "(nat \<times> nat) list"

definition setup_step ::
  "'a list \<Rightarrow> ('a \<rightharpoonup> nat) \<times> nat list \<times> (nat \<times> nat) list \<Rightarrow> nat
     \<Rightarrow> ('a \<rightharpoonup> nat) \<times> nat list \<times> (nat \<times> nat) list" where
  "setup_step vals st i =
     (case st of (unique_id_map, uidx, nmap) \<Rightarrow>
        (case unique_id_map (vals ! i) of
           None \<Rightarrow> (unique_id_map(vals ! i \<mapsto> i), uidx @ [i], nmap)
         | Some first_seen \<Rightarrow> (unique_id_map, uidx, nmap @ [(i, first_seen)])))"

definition UniqueMap_setup :: "'a list \<Rightarrow> unique_map" where
  "UniqueMap_setup vals =
     (case foldl (setup_step vals) (Map.empty, [], []) [0 ..< length vals] of
        (unique_id_map, uidx, nmap) \<Rightarrow> \<lparr>unique_idx = uidx, non_unique_map = nmap\<rparr>)"

definition resize :: "nat \<Rightarrow> 'a \<Rightarrow> 'a list \<Rightarrow> 'a list" where
  "resize n dflt xs = take n xs @ replicate (n - length xs) dflt"

definition reduce_to_unique :: "unique_map \<Rightarrow> 'a list \<Rightarrow> 'a list option" where
  "reduce_to_unique um vin =
     (if list_all (\<lambda>k. k < length vin) (unique_idx um)
      then Some (map (\<lambda>k. vin ! k) (unique_idx um)) else None)"

fun assign_unique :: "nat list \<Rightarrow> 'a list \<Rightarrow> nat \<Rightarrow> 'a list \<Rightarrow> 'a list option" where
  "assign_unique [] vin i vout = Some vout"
| "assign_unique (k # ks) vin i vout =
     (if k < length vout \<and> i < length vin
      then assign_unique ks vin (Suc i) (vout[k := vin ! i]) else None)"

fun copy_duplicates :: "(nat \<times> nat) list \<Rightarrow> 'a list \<Rightarrow> 'a list option" where
  "copy_duplicates [] vout = Some vout"
| "copy_duplicates (p # ps) vout =
     (if fst p < length vout \<and> snd p < length vout
      then copy_duplicates ps (vout[fst p := vout ! snd p]) else None)"

definition expand_to_non_unique :: "unique_map \<Rightarrow> 'a list \<Rightarrow> 'a \<Rightarrow> 'a list \<Rightarrow> 'a list option" where
  "expand_to_non_unique um vin dflt vout =
     (case assign_unique (unique_idx um) vin 0
             (resize (length (unique_idx um) + length (non_unique_map um)) dflt vout) of
        None \<Rightarrow> None
      | Some vout' \<Rightarrow> copy_duplicates (non_unique_map um) vout')"

section \<open>Invariants and example trees used below\<close>

text \<open>
  The rule that the loop of \<open>find_best_fit_in_node\<close> follows, in two parts. Among the
  first \<open>k\<close> children, a child is of minimum increase when none of them needs a smaller
  increase of area to hold the new bound. Over the children of minimum increase, in
  the order of the list, the choice starts at the first and moves on to a child that
  has a smaller area or fewer children than the choice has.
\<close>

definition increase_to_hold :: "box \<Rightarrow> 'k node list \<Rightarrow> nat \<Rightarrow> fp" where
  "increase_to_hold bb cs i = IncreaseToHold (getBound (cs ! i)) bb"

definition minimum_increase :: "box \<Rightarrow> 'k node list \<Rightarrow> nat \<Rightarrow> nat \<Rightarrow> bool" where
  "minimum_increase bb cs k i =
     list_all (\<lambda>j. \<not> flt (increase_to_hold bb cs j) (increase_to_hold bb cs i)) [0 ..< k]"

definition tied_children :: "box \<Rightarrow> 'k node list \<Rightarrow> nat \<Rightarrow> nat list" where
  "tied_children bb cs k = filter (minimum_increase bb cs k) [0 ..< k]"

definition tie_rule :: "'k node list \<Rightarrow> nat \<Rightarrow> nat \<Rightarrow> nat" where
  "tie_rule cs best i =
     (if flt (node_area (cs ! i)) (node_area (cs ! best)) \<or> node_size (cs ! i) < node_size (cs ! best)
      then i else best)"

definition tie_choice :: "box \<Rightarrow> 'k node list \<Rightarrow> nat \<Rightarrow> nat option" where
  "tie_choice bb cs k =
     (case tied_children bb cs k of
        [] \<Rightarrow> None
      | first # rest \<Rightarrow> Some (foldl (tie_rule cs) first rest))"

text \<open>The state of the loop after the first \<open>k\<close> children.\<close>

definition best_fit_inv ::
  "box \<Rightarrow> 'k node list \<Rightarrow> nat \<Rightarrow> ((nat \<times> 'k node) option \<times> fp) option \<Rightarrow> bool" where
  "best_fit_inv bb cs k st =
    (case st of
      None \<Rightarrow> False
    | Some (None, m) \<Rightarrow> k = 0 \<and> m = Fin value_max
    | Some (Some (i, c), m) \<Rightarrow>
        i < k \<and> c = cs ! i \<and> m = increase_to_hold bb cs i
        \<and> minimum_increase bb cs k i \<and> tie_choice bb cs k = Some i)"

text \<open>
  A root with two pages: five points in the unit cube, and four points in the box
  \<open>[0,2] x [0,1] x [0,1]\<close>. The query point \<open>(1/2,1/2,1/2)\<close> lies in both bounds.
\<close>

definition leaf_at :: "real list \<Rightarrow> nat \<Rightarrow> nat node" where
  "leaf_at p k = Leaf (point_box p, k)"

definition tie_page_a :: "nat node" where
  "tie_page_a = Page [leaf_at [0,0,0] 0, leaf_at [1,1,1] 1, leaf_at [0,1,0] 2, leaf_at [1,0,1] 3,
                      leaf_at [1,1,0] 4]
                  \<lparr>min_corner = [0,0,0], max_corner = [1,1,1]\<rparr>"

definition tie_page_b :: "nat node" where
  "tie_page_b = Page [leaf_at [0,0,0] 5, leaf_at [2,1,1] 6, leaf_at [1,0,1] 7, leaf_at [2,0,0] 8]
                  \<lparr>min_corner = [0,0,0], max_corner = [2,1,1]\<rparr>"

definition tie_root :: "nat node" where
  "tie_root = Page [tie_page_a, tie_page_b] \<lparr>min_corner = [0,0,0], max_corner = [2,1,1]\<rparr>"

definition tie_query :: box where
  "tie_query = point_box [1/2, 1/2, 1/2]"

text \<open>
  The bound of a page without children, as \<open>Node()\<close> leaves it, and the bound that
  stretching it over a list of children gives.
\<close>

definition empty_bound :: box where
  "empty_bound = reset \<lparr>min_corner = replicate ndim 0, max_corner = replicate ndim 0\<rparr>"

definition stretch_all :: "box \<Rightarrow> 'k node list \<Rightarrow> box" where
  "stretch_all e cs = foldl (\<lambda>acc node_ptr. stretch acc (getBound node_ptr)) e cs"

text \<open>A page made by \<open>Node()\<close> and filled by \<open>insert\<close> only.\<close>

definition grown :: "'k node \<Rightarrow> bool" where
  "grown n = (\<exists>cs. n = Page cs (stretch_all empty_bound cs))"

text \<open>Five points on the diagonal: an overflowing page where \<open>max_children\<close> is 4.\<close>

definition split_example :: "nat node list" where
  "split_example = [leaf_at [0,0,0] 0, leaf_at [1,1,1] 1, leaf_at [2,2,2] 2, leaf_at [3,3,3] 3,
                    leaf_at [4,4,4] 4]"

text \<open>
  The invariant of the cached bounds. A box has \<open>NDim\<close> coordinates in each corner
  (the type \<open>std::array<T, NDim>\<close> says so in the source). The cached bound of a page
  is the union of the bounds of its children: the bound that \<open>restretch\<close> computes,
  the empty bound stretched over every child.
\<close>

definition dim_ok :: "box \<Rightarrow> bool" where
  "dim_ok b = (length (min_corner b) = ndim \<and> length (max_corner b) = ndim)"

fun cached_bounds_ok :: "'k node \<Rightarrow> bool" where
  "cached_bounds_ok (Leaf v) = True"
| "cached_bounds_ok (Page cs b) = (b = stretch_all empty_bound cs \<and> (\<forall>c\<in>set cs. cached_bounds_ok c))"

fun dims_ok :: "'k node \<Rightarrow> bool" where
  "dims_ok (Leaf v) = dim_ok (fst v)"
| "dims_ok (Page cs b) = (\<forall>c\<in>set cs. dims_ok c)"

definition node_ok :: "'k node \<Rightarrow> bool" where
  "node_ok n = (cached_bounds_ok n \<and> dims_ok n)"

definition root_ok :: "'k rtree \<Rightarrow> bool" where
  "root_ok t = (case root_node_ptr t of None \<Rightarrow> True | Some r \<Rightarrow> \<not> isLeaf r \<and> cached_bounds_ok r \<and> dims_ok r)"

text \<open>
  The frames above a node, when the node in the hole has the bound \<open>co\<close>: each
  parent's cached bound is the union of the bounds of its other children and of the
  bound in the hole.
\<close>

fun path_ok :: "box \<Rightarrow> 'k frame list \<Rightarrow> bool" where
  "path_ok co [] = True"
| "path_ok co ((pb, before, after) # path) =
     (pb = stretch (stretch_all empty_bound (before @ after)) co
      \<and> (\<forall>c\<in>set (before @ after). node_ok c) \<and> path_ok pb path)"

text \<open>The state of the loop of \<open>setup\<close> after the first \<open>i\<close> values of \<open>V\<close>.\<close>

definition setup_inv :: "'a list \<Rightarrow> nat \<Rightarrow> ('a \<rightharpoonup> nat) \<times> nat list \<times> (nat \<times> nat) list \<Rightarrow> bool" where
  "setup_inv V i st =
     (case st of (m, u, nu) \<Rightarrow>
        set u \<union> fst ` set nu = {0 ..< i}
        \<and> length u + length nu = i
        \<and> (\<forall>p\<in>set nu. snd p \<in> set u \<and> V ! fst p = V ! snd p)
        \<and> (\<forall>x k. m x = Some k \<longrightarrow> k \<in> set u \<and> V ! k = x))"

section \<open>Queries of the R-tree (index/rtree.hpp)\<close>

lemma sum_size_children: "sum_list (map (\<lambda>n. Suc (size n)) cs) = size_list size cs"
  by (induction cs) auto

text \<open>
  The spatial query: the candidates wait in a list; a candidate that passes the
  predicate is emitted if it is a leaf and replaced by its children, at the back of
  the list, if it is a page.
\<close>

function query_spatial_loop ::
  "(box \<Rightarrow> bool \<Rightarrow> bool) \<Rightarrow> 'k node list \<Rightarrow> (box \<times> 'k) list \<times> nat \<Rightarrow> (box \<times> 'k) list \<times> nat" where
  "query_spatial_loop pred [] out = out"
| "query_spatial_loop pred (current_candidate # rest) out =
     (if pred (getBound current_candidate) (isLeaf current_candidate)
      then (case current_candidate of
              Leaf v \<Rightarrow> query_spatial_loop pred rest (fst out @ [v], Suc (snd out))
            | Page cs b \<Rightarrow> query_spatial_loop pred (rest @ cs) out)
      else query_spatial_loop pred rest out)"
  by pat_completeness auto
termination
proof (relation "measure (\<lambda>(pred, cands, out). sum_list (map (\<lambda>n. Suc (size n)) cands))", goal_cases)
  case 1
  show ?case by simp
next
  case (2 pred cur rest out v)
  then show ?case by simp
next
  case (3 pred cur rest out cs b)
  then show ?case by (simp add: sum_size_children)
next
  case (4 pred cur rest out)
  then show ?case by simp
qed

definition RTree_query_spatial ::
  "(box \<Rightarrow> bool \<Rightarrow> bool) \<Rightarrow> 'k rtree \<Rightarrow> (box \<times> 'k) list \<times> nat" where
  "RTree_query_spatial pred t =
     (case root_node_ptr t of
        None \<Rightarrow> ([], 0)
      | Some r \<Rightarrow> query_spatial_loop pred [r] ([], 0))"

text \<open>
  The distance query. \<open>candidate_nodes\<close> is a multiset ordered by distance,
  \<open>candidate_leafs\<close> a truncated multiset of capacity \<open>pred.count()\<close>. Reading
  \<open>candidate_leafs.crbegin()->first\<close> from an empty set is undefined: \<open>None\<close>.
\<close>

lemma sum_list_ms_emplace:
  fixes f :: "real \<times> 'a \<Rightarrow> 'b::comm_monoid_add"
  shows "sum_list (map f (ms_emplace x xs)) = f x + sum_list (map f xs)"
proof -
  have "sum_list (map f (takeWhile P xs)) + sum_list (map f (dropWhile P xs)) = sum_list (map f xs)" for P
    by (metis map_append sum_list_append takeWhile_dropWhile_id)
  from this[of "\<lambda>y. \<not> fst x < fst y"] show ?thesis
    by (simp add: ms_emplace_def add.left_commute)
qed

definition enqueue_children ::
  "distance_predicate \<Rightarrow> (real \<times> 'k node) list \<Rightarrow> 'k node list \<Rightarrow> (real \<times> 'k node) list" where
  "enqueue_children pred candidate_nodes cs =
     foldl (\<lambda>cn child. ms_emplace (distance_apply pred (getBound child) (isLeaf child), child) cn)
       candidate_nodes cs"

lemma sum_list_enqueue_children:
  "sum_list (map (\<lambda>e. Suc (size (snd e))) (enqueue_children pred cn cs))
     = sum_list (map (\<lambda>e. Suc (size (snd e))) cn) + sum_list (map (\<lambda>n. Suc (size n)) cs)"
  unfolding enqueue_children_def
  by (induction cs arbitrary: cn) (simp_all add: sum_list_ms_emplace)

function nearest_loop ::
  "distance_predicate \<Rightarrow> (real \<times> 'k node) list \<Rightarrow> 'k node truncated_multiset \<Rightarrow> real
     \<Rightarrow> 'k node truncated_multiset option" where
  "nearest_loop pred [] candidate_leafs distance_threshhold = Some candidate_leafs"
| "nearest_loop pred (front # rest) candidate_leafs distance_threshhold =
     (if fst front \<le> distance_threshhold
      then (case snd front of
              Leaf v \<Rightarrow>
                (if length (tms_data (tms_emplace front candidate_leafs)) \<ge> dp_count pred
                 then (if tms_data (tms_emplace front candidate_leafs) = [] then None
                       else nearest_loop pred rest (tms_emplace front candidate_leafs)
                              (fst (last (tms_data (tms_emplace front candidate_leafs)))))
                 else nearest_loop pred rest (tms_emplace front candidate_leafs) distance_threshhold)
            | Page cs b \<Rightarrow>
                nearest_loop pred (enqueue_children pred rest cs) candidate_leafs distance_threshhold)
      else nearest_loop pred rest candidate_leafs distance_threshhold)"
  by pat_completeness auto
termination
proof (relation "measure (\<lambda>(pred, cands, leafs, thr). sum_list (map (\<lambda>e. Suc (size (snd e))) cands))", goal_cases)
  case 1
  show ?case by simp
next
  case (2 pred front rest leafs thr v)
  then show ?case by simp
next
  case (3 pred front rest leafs thr v)
  then show ?case by simp
next
  case (4 pred front rest leafs thr cs b)
  then show ?case by (simp add: sum_list_enqueue_children sum_size_children)
next
  case (5 pred front rest leafs thr)
  then show ?case by simp
qed

fun getValue :: "'k node \<Rightarrow> (box \<times> 'k) option" where
  "getValue (Leaf v) = Some v"
| "getValue (Page cs b) = None"

fun values_of :: "(real \<times> 'k node) list \<Rightarrow> (box \<times> 'k) list option" where
  "values_of [] = Some []"
| "values_of (value_pair # rest) =
     (case getValue (snd value_pair) of
        None \<Rightarrow> None
      | Some v \<Rightarrow> map_option (\<lambda>vs. v # vs) (values_of rest))"

definition RTree_query_nearest ::
  "distance_predicate \<Rightarrow> 'k rtree \<Rightarrow> ((box \<times> 'k) list \<times> nat) option" where
  "RTree_query_nearest pred t =
     (case root_node_ptr t of
        None \<Rightarrow> Some ([], 0)
      | Some r \<Rightarrow>
         (case nearest_loop pred
                 (ms_emplace (distance_apply pred (getBound r) (isLeaf r), r) [])
                 \<lparr>tms_data = [], tms_count = dp_count pred\<rparr> value_max of
            None \<Rightarrow> None
          | Some candidate_leafs \<Rightarrow>
              map_option (\<lambda>vs. (vs, length (tms_data candidate_leafs)))
                (values_of (tms_data candidate_leafs))))"


text \<open>The values stored below a node, and below the nodes of a list of entries.\<close>

fun leaves :: "'k node \<Rightarrow> (box \<times> 'k) multiset" where
  "leaves (Leaf v) = {#v#}"
| "leaves (Page cs b) = sum_list (map leaves cs)"

definition RTree_values :: "'k rtree \<Rightarrow> (box \<times> 'k) multiset" where
  "RTree_values t = (case root_node_ptr t of None \<Rightarrow> {#} | Some r \<Rightarrow> leaves r)"

definition els :: "(real \<times> 'k node) list \<Rightarrow> (box \<times> 'k) multiset" where
  "els es = sum_list (map (\<lambda>e. leaves (snd e)) es)"

definition cand_ok :: "box \<Rightarrow> real \<times> 'k node \<Rightarrow> bool" where
  "cand_ok q e = (fst e = Nearest (getBound (snd e)) q \<and> node_ok (snd e)
                  \<and> (\<forall>u\<in>#leaves (snd e). Nearest (fst u) q \<le> value_max))"

definition leaf_ok :: "box \<Rightarrow> real \<times> 'k node \<Rightarrow> bool" where
  "leaf_ok q e = (\<exists>v. snd e = Leaf v \<and> fst e = Nearest (fst v) q)"

definition nearest_inv ::
  "box \<Rightarrow> nat \<Rightarrow> (real \<times> 'k node) list \<Rightarrow> 'k node truncated_multiset \<Rightarrow> real \<Rightarrow> bool" where
  "nearest_inv q K cands leafs thr =
     ((\<forall>e\<in>set cands. cand_ok q e) \<and> (\<forall>e\<in>set (tms_data leafs). leaf_ok q e)
      \<and> sorted (map fst (tms_data leafs)) \<and> length (tms_data leafs) \<le> K \<and> tms_count leafs = K
      \<and> thr = (if length (tms_data leafs) = K then fst (last (tms_data leafs)) else value_max))"

definition nearest_post ::
  "box \<Rightarrow> nat \<Rightarrow> (real \<times> 'k node) list \<Rightarrow> 'k node truncated_multiset
     \<Rightarrow> 'k node truncated_multiset \<Rightarrow> bool" where
  "nearest_post q K cands leafs res =
     ((\<forall>e\<in>set (tms_data res). leaf_ok q e) \<and> sorted (map fst (tms_data res))
      \<and> length (tms_data res) = min K (size (els (tms_data leafs) + els cands))
      \<and> els (tms_data res) \<subseteq># els (tms_data leafs) + els cands
      \<and> (\<forall>u\<in>#(els (tms_data leafs) + els cands - els (tms_data res)).
            \<forall>e\<in>set (tms_data res). fst e \<le> Nearest (fst u) q)
      \<and> (length (tms_data leafs) = K \<longrightarrow>
            (\<forall>e\<in>set (tms_data res). fst e \<le> fst (last (tms_data leafs)))))"

section \<open>RCB partitioner: \<open>init\<close> (partition/rcb.hpp)\<close>

text \<open>
  The input of one rank: the coordinate arrays and the optional weight array with
  their strides, and the number of local points (\<open>local_count\<close> in the source).
\<close>

record input_adaptor =
  ad_x :: "real list"
  ad_y :: "real list"
  ad_z :: "real list"
  ad_w :: "real list option"
  ad_xinc :: nat
  ad_yinc :: nat
  ad_zinc :: nat
  ad_winc :: nat
  local_count :: nat

text \<open>Copy the weights or assign 1.\<close>

definition rcb_weight :: "input_adaptor \<Rightarrow> real list" where
  "rcb_weight adapt =
     (case ad_w adapt of
        None \<Rightarrow> replicate (local_count adapt) 1
      | Some w \<Rightarrow> map (\<lambda>i. w ! (i * ad_winc adapt)) [0 ..< local_count adapt])"

text \<open>Build an R-tree of the points: the value of point \<open>i\<close> is its box and \<open>i\<close>.\<close>

definition rcb_point :: "input_adaptor \<Rightarrow> nat \<Rightarrow> real list" where
  "rcb_point adapt i = [ad_x adapt ! (i * ad_xinc adapt), ad_y adapt ! (i * ad_yinc adapt),
                        ad_z adapt ! (i * ad_zinc adapt)]"

definition rcb_rtree :: "input_adaptor \<Rightarrow> nat rtree option" where
  "rcb_rtree adapt =
     foldl (\<lambda>rtree i. Option.bind rtree
                (RTree_insert (Quadratic 10 4) (point_box (rcb_point adapt i), i)))
       (Some RTree_new) [0 ..< local_count adapt]"

text \<open>\<open>std::partial_sum\<close> in place, and \<open>std::upper_bound\<close> on the result.\<close>

fun partial_sum_from :: "real \<Rightarrow> real list \<Rightarrow> real list" where
  "partial_sum_from acc [] = []"
| "partial_sum_from acc (x # xs) = (acc + x) # partial_sum_from (acc + x) xs"

definition partial_sum :: "real list \<Rightarrow> real list" where
  "partial_sum xs = (case xs of [] \<Rightarrow> [] | x # rest \<Rightarrow> x # partial_sum_from x rest)"

definition upper_bound :: "real list \<Rightarrow> real \<Rightarrow> nat" where
  "upper_bound xs v = length (takeWhile (\<lambda>x. \<not> v < x) xs)"

text \<open>
  The first loop of a round, on one rank and for one pending box: the pair
  \<open>(median_value * total_weight, total_weight)\<close>. \<open>contained_weights.back()\<close> of an
  empty vector and \<open>contained_points[median_index]\<close> past the end are undefined.
\<close>

definition local_split :: "nat rtree \<Rightarrow> real list \<Rightarrow> box \<times> nat \<Rightarrow> (real \<times> real) option" where
  "local_split rtree weight entry =
     (let search_box = fst entry;
          total_partition = snd entry;
          small_partition = total_partition div 2;
          ratio_partition = real small_partition / real total_partition;
          contained_points =
            fst (RTree_query_spatial (spatial_apply (pred_ContainedByNonInclusive search_box)) rtree);
          long_dim = longest_dimension search_box;
          contained_points = sort_key (\<lambda>a. center (fst a) long_dim) contained_points;
          contained_weights = partial_sum (map (\<lambda>p. weight ! snd p) contained_points)
      in if contained_weights = [] then None
         else (let median_index = upper_bound contained_weights (ratio_partition * last contained_weights)
               in if median_index < length contained_points
                  then (let median_value = center (fst (contained_points ! median_index)) long_dim;
                            total_weight = last contained_weights
                        in Some (median_value * total_weight, total_weight))
                  else None))"

definition local_split_list ::
  "nat rtree \<times> real list \<Rightarrow> (box \<times> nat) list \<Rightarrow> (real \<times> real) list option" where
  "local_split_list rank boxes_to_split = those (map (local_split (fst rank) (snd rank)) boxes_to_split)"

text \<open>
  The combiner handed to \<open>all_reduce\<close> in \<open>init\<close>, and the reduction itself: the
  contributions are combined in the order of the ranks.
\<close>

definition split_combiner :: "(real \<times> real) list \<Rightarrow> (real \<times> real) list \<Rightarrow> (real \<times> real) list" where
  "split_combiner a b = map2 (\<lambda>ans_n b_n. (fst b_n, snd b_n)) a b"

definition all_reduce :: "('a \<Rightarrow> 'a \<Rightarrow> 'a) \<Rightarrow> 'a list \<Rightarrow> 'a" where
  "all_reduce op in_values = foldl op (hd in_values) (tl in_values)"

definition global_split_list ::
  "(nat rtree \<times> real list) list \<Rightarrow> (box \<times> nat) list \<Rightarrow> (real \<times> real) list option" where
  "global_split_list ranks boxes_to_split =
     map_option (all_reduce split_combiner) (those (map (\<lambda>rank. local_split_list rank boxes_to_split) ranks))"

text \<open>
  \<open>final_boxes\<close> is a \<open>std::set\<close> ordered by \<open>Box::less\<close>: a box equivalent to one in
  the set (neither is less than the other) is not inserted. The library requires the
  comparison to be a strict weak ordering. \<open>Box::less\<close> is none in general; where it is
  none on the boxes of the set and the new box, the place the new box gets depends on
  the shape of the library's tree, and the insertion is outside the model: \<open>None\<close>.
\<close>

definition strict_weak_order :: "box list \<Rightarrow> bool" where
  "strict_weak_order bs =
     (list_all (\<lambda>a. \<not> box_less a a) bs
      \<and> list_all (\<lambda>a. list_all (\<lambda>b. list_all (\<lambda>c.
            (box_less a b \<and> box_less b c \<longrightarrow> box_less a c)
            \<and> (\<not> box_less a b \<and> \<not> box_less b a \<and> \<not> box_less b c \<and> \<not> box_less c b
                 \<longrightarrow> \<not> box_less a c \<and> \<not> box_less c a)) bs) bs) bs)"

definition set_insert :: "box \<Rightarrow> box list \<Rightarrow> box list option" where
  "set_insert x xs =
     (if \<not> strict_weak_order (x # xs) then None
      else if list_ex (\<lambda>y. \<not> box_less x y \<and> \<not> box_less y x) xs then Some xs
      else Some (takeWhile (\<lambda>y. box_less y x) xs @ x # dropWhile (\<lambda>y. box_less y x) xs))"

text \<open>The second loop of a round: one pending box and its global pair.\<close>

definition place_box ::
  "box \<Rightarrow> nat \<Rightarrow> box list \<times> (box \<times> nat) list \<Rightarrow> (box list \<times> (box \<times> nat) list) option" where
  "place_box bnd n_partition st =
     (if 1 = n_partition then map_option (\<lambda>final_boxes. (final_boxes, snd st)) (set_insert bnd (fst st))
      else Some (fst st, snd st @ [(bnd, n_partition)]))"

definition split_step ::
  "(box list \<times> (box \<times> nat) list) option \<Rightarrow> (box \<times> nat) \<times> (real \<times> real)
     \<Rightarrow> (box list \<times> (box \<times> nat) list) option" where
  "split_step st entry =
     (let search_box = fst (fst entry);
          long_dim = longest_dimension search_box;
          weighted_split = fst (snd entry) / snd (snd entry);
          bounds = split_box search_box long_dim weighted_split;
          total_partition = snd (fst entry);
          small_partition = total_partition div 2;
          large_partition = total_partition - small_partition
      in Option.bind (Option.bind st (place_box (fst bounds) small_partition))
           (place_box (snd bounds) large_partition))"

text \<open>
  One round of the \<open>while\<close> loop, for all ranks at once: every rank holds the same
  \<open>boxes_to_split\<close> and \<open>final_boxes\<close>, since every rank gets the same reduced list.
  A division by a zero total weight is outside the model.
\<close>

definition rcb_round ::
  "(nat rtree \<times> real list) list \<Rightarrow> (box \<times> nat) list \<Rightarrow> box list
     \<Rightarrow> (box list \<times> (box \<times> nat) list) option" where
  "rcb_round ranks boxes_to_split final_boxes =
     (case global_split_list ranks boxes_to_split of
        None \<Rightarrow> None
      | Some global \<Rightarrow>
          if list_ex (\<lambda>g. snd g = 0) global then None
          else foldl split_step (Some (final_boxes, [])) (zip boxes_to_split global))"

partial_function (option) rcb_loop ::
  "(nat rtree \<times> real list) list \<Rightarrow> (box \<times> nat) list \<Rightarrow> box list \<Rightarrow> box list option" where
  "rcb_loop ranks boxes_to_split final_boxes =
     (if boxes_to_split = [] then Some final_boxes
      else Option.bind (rcb_round ranks boxes_to_split final_boxes)
             (\<lambda>st. rcb_loop ranks (snd st) (fst st)))"

text \<open>
  \<open>RCB::init\<close> on a communicator with one rank for each adaptor of the list; the
  result is \<open>m_bounds\<close>. \<open>rtree.bounds()\<close> of a rank without points dereferences the
  null root.
\<close>

definition rcb_ranks :: "input_adaptor list \<Rightarrow> (nat rtree \<times> real list) list option" where
  "rcb_ranks adapts =
     map_option (\<lambda>rtrees. zip rtrees (map rcb_weight adapts)) (those (map rcb_rtree adapts))"

definition rcb_global_box ::
  "(real \<Rightarrow> real) \<Rightarrow> (real \<Rightarrow> real) \<Rightarrow> (nat rtree \<times> real list) list \<Rightarrow> box option" where
  "rcb_global_box dn up ranks =
     (case those (map (\<lambda>rank. RTree_bounds (fst rank)) ranks) of
        None \<Rightarrow> None
      | Some bounds_by_rank \<Rightarrow>
          if bounds_by_rank = [] then None
          else Some (next_larger dn up (foldl stretch (hd bounds_by_rank) (tl bounds_by_rank))))"

definition rcb_init ::
  "(real \<Rightarrow> real) \<Rightarrow> (real \<Rightarrow> real) \<Rightarrow> input_adaptor list \<Rightarrow> box list option" where
  "rcb_init dn up adapts =
     (case rcb_ranks adapts of
        None \<Rightarrow> None
      | Some ranks \<Rightarrow>
         (case rcb_global_box dn up ranks of
            None \<Rightarrow> None
          | Some global_box \<Rightarrow>
              (let total_partitions = length adapts
               in if total_partitions = 1 then Option.bind (set_insert global_box []) (rcb_loop ranks [])
                  else rcb_loop ranks [(global_box, total_partitions)] [])))"

text \<open>The combination that the split formula \<open>\<Sigma>(split\<cdot>w) / \<Sigma> w\<close> calls for.\<close>

definition sum_combiner :: "(real \<times> real) list \<Rightarrow> (real \<times> real) list \<Rightarrow> (real \<times> real) list" where
  "sum_combiner a b = map2 (\<lambda>ans_n b_n. (fst ans_n + fst b_n, snd ans_n + snd b_n)) a b"

text \<open>Two ranks with one point of weight one each, at \<open>x = 1\<close> and at \<open>x = 3\<close>.\<close>

definition one_point :: "real \<Rightarrow> input_adaptor" where
  "one_point x = \<lparr>ad_x = [x], ad_y = [0], ad_z = [0], ad_w = None,
                  ad_xinc = 1, ad_yinc = 1, ad_zinc = 1, ad_winc = 1, local_count = 1\<rparr>"

definition two_ranks :: "input_adaptor list" where
  "two_ranks = [one_point 1, one_point 3]"

definition two_ranks_box :: box where
  "two_ranks_box = \<lparr>min_corner = [7/8, -1/8, -1/8], max_corner = [25/8, 1/8, 1/8]\<rparr>"

text \<open>Three points of weight one, two of them at \<open>x = 1\<close> and one at \<open>x = 5\<close>.\<close>

definition three_points :: input_adaptor where
  "three_points = \<lparr>ad_x = [1, 1, 5], ad_y = [0, 0, 0], ad_z = [0, 0, 0], ad_w = None,
                   ad_xinc = 1, ad_yinc = 1, ad_zinc = 1, ad_winc = 1, local_count = 3\<rparr>"

definition three_ranks :: "input_adaptor list" where
  "three_ranks = [three_points, three_points, three_points]"

definition three_points_rank :: "nat rtree \<times> real list" where
  "three_points_rank =
     (\<lparr>root_node_ptr = Some (Page [Leaf (point_box [1, 0, 0], 0), Leaf (point_box [1, 0, 0], 1),
                                     Leaf (point_box [5, 0, 0], 2)]
                                \<lparr>min_corner = [1, 0, 0], max_corner = [5, 0, 0]\<rparr>)\<rparr>, [1, 1, 1])"

text \<open>
  The global box of the three ranks and the boxes cut from it, for the two directions
  \<open>dn\<close> and \<open>up\<close> of \<open>nexttoward\<close>.
\<close>

definition three_ranks_box :: "(real \<Rightarrow> real) \<Rightarrow> (real \<Rightarrow> real) \<Rightarrow> box" where
  "three_ranks_box dn up = \<lparr>min_corner = [dn 1, dn 0, dn 0], max_corner = [up 5, up 0, up 0]\<rparr>"

definition three_ranks_low :: "(real \<Rightarrow> real) \<Rightarrow> (real \<Rightarrow> real) \<Rightarrow> box" where
  "three_ranks_low dn up = \<lparr>min_corner = [dn 1, dn 0, dn 0], max_corner = [1, up 0, up 0]\<rparr>"

definition three_ranks_hgh :: "(real \<Rightarrow> real) \<Rightarrow> (real \<Rightarrow> real) \<Rightarrow> box" where
  "three_ranks_hgh dn up = \<lparr>min_corner = [1, dn 0, dn 0], max_corner = [up 5, up 0, up 0]\<rparr>"

definition three_ranks_hgh_low :: "(real \<Rightarrow> real) \<Rightarrow> (real \<Rightarrow> real) \<Rightarrow> box" where
  "three_ranks_hgh_low dn up = \<lparr>min_corner = [1, dn 0, dn 0], max_corner = [1, up 0, up 0]\<rparr>"

text \<open>
  A cube of side \<open>2\<^sup>4\<^sup>0\<^sup>0\<close>, whose volume is beyond the largest double, and a page of five
  such leaves.
\<close>

text \<open>A page of five values at one point, and the tree of \<open>Linear<4,2>\<close> after \<open>n\<close> of them.\<close>

definition same_page :: "nat node" where
  "same_page = Page [leaf_at [1, 2, 3] 0, leaf_at [1, 2, 3] 1, leaf_at [1, 2, 3] 2, leaf_at [1, 2, 3] 3,
                     leaf_at [1, 2, 3] 4] (point_box [1, 2, 3])"

definition same_tree :: "nat \<Rightarrow> nat rtree option" where
  "same_tree n = foldl (\<lambda>rtree i. Option.bind rtree (RTree_insert (Linear 4 2) (point_box [1, 2, 3], i)))
                   (Some RTree_new) [0 ..< n]"

definition huge :: real where
  "huge = 2 ^ 400"

definition huge_box :: box where
  "huge_box = \<lparr>min_corner = [0, 0, 0], max_corner = [huge, huge, huge]\<rparr>"

definition huge_page :: "nat node" where
  "huge_page = Page [Leaf (huge_box, 0), Leaf (huge_box, 1), Leaf (huge_box, 2), Leaf (huge_box, 3),
                     Leaf (huge_box, 4)] huge_box"

text \<open>The tree after the values \<open>0, \<dots>, n - 1\<close>, all with the box \<open>huge_box\<close>, were inserted.\<close>

definition huge_tree :: "nat \<Rightarrow> nat rtree option" where
  "huge_tree n = foldl (\<lambda>rtree i. Option.bind rtree (RTree_insert (Quadratic 4 2) (huge_box, i)))
                   (Some RTree_new) [0 ..< n]"

section \<open>Verified properties\<close>

subsection \<open>Helper facts about boxes\<close>

lemma value_max_gt: "1000000 < value_max"
proof -
  have "(2::real) ^ 20 \<le> 2 ^ 1023" by (rule power_increasing) simp_all
  moreover have "(1::real) \<le> 2 - 1 / 2 ^ 52" by simp
  ultimately have "(2::real) ^ 20 * 1 \<le> 2 ^ 1023 * (2 - 1 / 2 ^ 52)"
    by (intro mult_mono) simp_all
  then show ?thesis by (simp add: value_max_def mult.commute)
qed

lemma value_lowest_lt: "value_lowest < - 1000000"
  using value_max_gt by (simp add: value_lowest_def)

lemma pow2_powr: "pow2 e = 2 powr (of_int e)"
  by (simp add: pow2_def powr_realpow[symmetric] powr_minus divide_inverse)

lemma pow2_pos: "0 < pow2 e"
  by (simp add: pow2_def)

lemma pow2_add: "pow2 (a + b) = pow2 a * pow2 b"
  by (simp add: pow2_powr powr_add)

lemma pow2_diff: "pow2 (a - b) = pow2 a / pow2 b"
  by (simp add: pow2_powr powr_diff)

lemma pow2_less_iff: "pow2 a < pow2 b \<longleftrightarrow> a < b"
  by (simp add: pow2_powr)

lemma pow2_le_iff: "pow2 a \<le> pow2 b \<longleftrightarrow> a \<le> b"
  by (simp add: pow2_powr)

lemma pow2_nat: "0 \<le> e \<Longrightarrow> pow2 e = 2 ^ nat e"
  by (simp add: pow2_def)

lemma pow2_0: "pow2 0 = 1"
  by (simp add: pow2_def)

lemma ilog2_bounds:
  assumes "0 < a"
  shows "pow2 (ilog2 a) \<le> a" and "a < pow2 (ilog2 a + 1)"
proof -
  have "pow2 (ilog2 a) \<le> a \<and> a < pow2 (ilog2 a + 1)"
  proof (cases "1 \<le> a")
    case True
    let ?n = "\<lfloor>a\<rfloor>"
    from True have n: "0 < ?n" by simp
    from bitlen_bounds[OF n] have b: "2 ^ nat (bitlen ?n - 1) \<le> ?n" "?n < 2 ^ nat (bitlen ?n)"
      by simp_all
    from n have bl: "1 \<le> bitlen ?n" using bitlen_eq_zero_iff[of ?n] bitlen_nonneg[of ?n] by linarith
    have "(2::real) ^ nat (bitlen ?n - 1) = real_of_int (2 ^ nat (bitlen ?n - 1))" by simp
    also have "\<dots> \<le> real_of_int ?n" using b(1) by (simp only: of_int_le_iff)
    also have "\<dots> \<le> a" by (rule of_int_floor_le)
    finally have l: "2 ^ nat (bitlen ?n - 1) \<le> a" .
    have "?n + 1 \<le> 2 ^ nat (bitlen ?n)" using b(2) by simp
    then have "real_of_int (?n + 1) \<le> real_of_int (2 ^ nat (bitlen ?n))"
      by (simp only: of_int_le_iff)
    also have "\<dots> = 2 ^ nat (bitlen ?n)" by simp
    finally have "real_of_int (?n + 1) \<le> 2 ^ nat (bitlen ?n)" .
    moreover have "a < real_of_int (?n + 1)" by simp
    ultimately have u: "a < 2 ^ nat (bitlen ?n)" by linarith
    from l u bl True show ?thesis by (simp add: ilog2_def pow2_nat)
  next
    case False
    with assms have inv: "1 < 1 / a" by simp
    let ?N = "\<lceil>1 / a\<rceil>"
    let ?M = "?N - 1"
    from inv have M: "0 < ?M" by simp
    from bitlen_bounds[OF M] have b: "2 ^ nat (bitlen ?M - 1) \<le> ?M" "?M < 2 ^ nat (bitlen ?M)"
      by simp_all
    from M have bl: "1 \<le> bitlen ?M" using bitlen_eq_zero_iff[of ?M] bitlen_nonneg[of ?M] by linarith
    have "?N \<le> 2 ^ nat (bitlen ?M)" using b(2) by simp
    then have "real_of_int ?N \<le> real_of_int (2 ^ nat (bitlen ?M))"
      by (simp only: of_int_le_iff)
    also have "\<dots> = 2 ^ nat (bitlen ?M)" by simp
    finally have "real_of_int ?N \<le> 2 ^ nat (bitlen ?M)" .
    moreover have "1 / a \<le> real_of_int ?N" by (rule le_of_int_ceiling)
    ultimately have "1 / a \<le> 2 ^ nat (bitlen ?M)" by linarith
    then have l: "1 / 2 ^ nat (bitlen ?M) \<le> a"
      using assms by (simp add: field_simps)
    have "(2::real) ^ nat (bitlen ?M - 1) = real_of_int (2 ^ nat (bitlen ?M - 1))" by simp
    also have "\<dots> \<le> real_of_int ?M"
      using b(1) by (simp only: of_int_le_iff)
    also have "\<dots> < 1 / a"
      using ceiling_correct[of "1 / a"] by linarith
    finally have "2 ^ nat (bitlen ?M - 1) < 1 / a" .
    then have u: "a < 1 / 2 ^ nat (bitlen ?M - 1)"
      using assms by (simp add: field_simps)
    have p: "pow2 (- bitlen ?M) = 1 / 2 ^ nat (bitlen ?M)"
      using bl by (simp add: pow2_def)
    have q: "pow2 (1 - bitlen ?M) = 1 / 2 ^ nat (bitlen ?M - 1)"
    proof (cases "bitlen ?M = 1")
      case True
      then show ?thesis by (simp add: pow2_def)
    next
      case False
      with bl have "1 - bitlen ?M < 0" by simp
      then show ?thesis by (simp add: pow2_def)
    qed
    from l u False show ?thesis by (simp add: ilog2_def p q)
  qed
  then show "pow2 (ilog2 a) \<le> a" and "a < pow2 (ilog2 a + 1)" by simp_all
qed

lemma round_half_even_int: "round_half_even (of_int k) = k"
  by (simp add: round_half_even_def)

text \<open>A number with a significand of at most 53 bits and an exponent in range is a double.\<close>

lemma fl_exact:
  assumes x: "x = of_int m * pow2 j" and m: "\<bar>m\<bar> < 2 ^ 53" and j: "- 1074 \<le> j"
  shows "fl x = x"
proof (cases "x = 0")
  case True
  then show ?thesis by (simp add: fl_def)
next
  case False
  with x have m0: "m \<noteq> 0" by auto
  let ?a = "\<bar>x\<bar>"
  let ?e = "max (ilog2 ?a) (- 1022)"
  let ?u = "pow2 (?e - 52)"
  have a: "?a = of_int \<bar>m\<bar> * pow2 j" using x pow2_pos[of j] by (simp add: abs_mult)
  have pos: "0 < ?a" using False by simp
  have "?e - 52 \<le> j"
  proof (cases "ilog2 ?a \<le> - 1022")
    case True
    then show ?thesis using j by simp
  next
    case False
    have "pow2 (ilog2 ?a) \<le> ?a" by (rule ilog2_bounds(1)[OF pos])
    also have "?a < 2 ^ 53 * pow2 j"
    proof -
      from m have "real_of_int \<bar>m\<bar> < real_of_int (2 ^ 53)" by (simp only: of_int_less_iff)
      then have "real_of_int \<bar>m\<bar> < 2 ^ 53" by simp
      then show ?thesis unfolding a using pow2_pos[of j] by (intro mult_strict_right_mono)
    qed
    also have "(2::real) ^ 53 * pow2 j = pow2 (53 + j)"
      by (simp add: pow2_add pow2_nat)
    finally have "ilog2 ?a < 53 + j" by (simp add: pow2_less_iff)
    then show ?thesis using False by simp
  qed
  then obtain d where d: "j = ?e - 52 + int d" by (metis zle_iff_zadd)
  have "pow2 j = pow2 (?e - 52 + int d)" using d by simp
  also have "\<dots> = ?u * 2 ^ d" by (simp add: pow2_add pow2_nat)
  finally have "pow2 j / ?u = 2 ^ d" using pow2_pos[of "?e - 52"] by simp
  moreover have "x / ?u = of_int m * (pow2 j / ?u)" by (subst x) simp
  ultimately have q: "x / ?u = of_int (m * 2 ^ d)" by simp
  have "fl x = of_int (round_half_even (x / ?u)) * ?u"
    using False by (simp add: fl_def Let_def)
  also have "\<dots> = of_int (m * 2 ^ d) * ?u" unfolding q round_half_even_int ..
  also have "\<dots> = x" using q pow2_pos[of "?e - 52"] by (simp add: field_simps)
  finally show ?thesis .
qed

lemma fl_int: "\<bar>k\<bar> < 2 ^ 53 \<Longrightarrow> fl (of_int k) = of_int k"
  using fl_exact[of "of_int k" k 0] by (simp add: pow2_0)

lemma fl_pow2: "- 1074 \<le> j \<Longrightarrow> fl (pow2 j) = pow2 j"
  using fl_exact[of "pow2 j" 1 j] by simp

lemma value_max_lt: "value_max < 2 ^ 1024"
proof -
  have "(2 - 1 / 2 ^ 52) * 2 ^ 1023 < 2 * (2::real) ^ 1023"
    by (intro mult_strict_right_mono) simp_all
  then show ?thesis by (simp add: value_max_def)
qed

lemma value_max_ge: "2 ^ 1023 \<le> value_max"
proof -
  have "1 * (2::real) ^ 1023 \<le> (2 - 1 / 2 ^ 52) * 2 ^ 1023"
    by (intro mult_right_mono) simp_all
  then show ?thesis by (simp add: value_max_def)
qed

lemma fround_exact:
  assumes "fl x = x" "\<bar>x\<bar> \<le> value_max"
  shows "fround x = Fin x"
  using assms by (auto simp: fround_def value_lowest_def)

lemma fround_int: "\<bar>k\<bar> \<le> 1000000 \<Longrightarrow> fround (of_int k) = Fin (of_int k)"
proof (rule fround_exact)
  assume k: "\<bar>k\<bar> \<le> 1000000"
  then have "\<bar>k\<bar> < 2 ^ 53" by simp
  then show "fl (real_of_int k) = real_of_int k" by (rule fl_int)
  from k have "\<bar>real_of_int k\<bar> \<le> 1000000" by linarith
  with value_max_gt show "\<bar>real_of_int k\<bar> \<le> value_max" by linarith
qed

lemma fround_0: "fround 0 = Fin 0"
  using fround_int[of 0] by simp

lemma fround_1: "fround 1 = Fin 1"
  using fround_int[of 1] by simp

lemma fround_numeral: "numeral n \<le> (1000000::int) \<Longrightarrow> fround (numeral n) = Fin (numeral n)"
  using fround_int[of "numeral n"] by simp

lemma fround_neg_numeral:
  "numeral n \<le> (1000000::int) \<Longrightarrow> fround (- numeral n) = Fin (- numeral n)"
  using fround_int[of "- numeral n"] by simp

lemmas fround_simps = fround_0 fround_1 fround_numeral fround_neg_numeral

lemma fround_pow2: "j \<le> 1023 \<Longrightarrow> fround (2 ^ j) = Fin (2 ^ j)"
proof (rule fround_exact)
  assume j: "j \<le> 1023"
  show "fl (2 ^ j) = (2::real) ^ j" using fl_pow2[of "int j"] by (simp add: pow2_nat)
  have "(2::real) ^ j \<le> 2 ^ 1023" using j by (intro power_increasing) simp_all
  with value_max_ge show "\<bar>(2::real) ^ j\<bar> \<le> value_max" by simp
qed

lemma fround_overflow: "1024 \<le> j \<Longrightarrow> fround (2 ^ j) = PInf"
proof -
  assume j: "1024 \<le> j"
  have "fl (2 ^ j) = (2::real) ^ j" using fl_pow2[of "int j"] by (simp add: pow2_nat)
  moreover have "(2::real) ^ 1024 \<le> 2 ^ j" using j by (intro power_increasing) simp_all
  ultimately show ?thesis using value_max_lt by (simp add: fround_def)
qed


lemma std_equal_nth:
  "std_equal p xs ys \<Longrightarrow> i < length xs \<Longrightarrow> i < length ys \<and> p (xs ! i) (ys ! i)"
proof (induction p xs ys arbitrary: i rule: std_equal.induct)
  case (3 p x xs y ys)
  then show ?case by (cases i) auto
qed auto

subsection \<open>Ownership of points on a shared face\<close>

text \<open>
  Claim C7. A box is split along a dimension \<open>d\<close> at a value \<open>s\<close> as \<open>RCB::init\<close> does
  it: the lower half has \<open>s\<close> as its maximum in \<open>d\<close>, the upper half has \<open>s\<close> as its
  minimum in \<open>d\<close>, everything else is the box's. Then no point box (both corners the
  point \<open>c\<close>) is contained non-inclusively in both halves, and a point with
  \<open>c[d] = s\<close>, on the shared face, is not contained in the lower half.
\<close>

theorem split_owner_unique:
  assumes "d < length (min_corner B)"
      and "length (max_corner B) = length (min_corner B)"
  shows "\<not> (ContainsNonInclusive (fst (split_box B d s)) (point_box c)
            \<and> ContainsNonInclusive (snd (split_box B d s)) (point_box c))
         \<and> (c ! d = s \<longrightarrow> \<not> ContainsNonInclusive (fst (split_box B d s)) (point_box c))"
proof -
  let ?low = "fst (split_box B d s)" and ?hgh = "snd (split_box B d s)"
  have lowmax: "max_corner ?low ! d = s" "length (max_corner ?low) = length (min_corner B)"
    using assms by (simp_all add: split_box_def box_set_def Let_def)
  have hghmin: "min_corner ?hgh ! d = s" "length (min_corner ?hgh) = length (min_corner B)"
    using assms by (simp_all add: split_box_def box_set_def Let_def)
  have low: "s > c ! d" if "ContainsNonInclusive ?low (point_box c)"
  proof -
    from that have "std_equal (>) (max_corner ?low) c"
      by (simp add: ContainsNonInclusive_def point_box_def)
    from std_equal_nth[OF this, of d] lowmax assms show ?thesis by simp
  qed
  have hgh: "s \<le> c ! d" if "ContainsNonInclusive ?hgh (point_box c)"
  proof -
    from that have "std_equal (\<le>) (min_corner ?hgh) c"
      by (simp add: ContainsNonInclusive_def point_box_def)
    from std_equal_nth[OF this, of d] hghmin assms show ?thesis by simp
  qed
  show ?thesis using low hgh by fastforce
qed

text \<open>
  The box \<open>[0,4] x [0,2] x [0,2]\<close> split along dimension 0 at 1: the point
  \<open>(1,1,1)\<close> lies on the shared face; the upper half owns it, the lower half does not.
\<close>

theorem split_owner_unique_witness:
  "(0::nat) < length (min_corner \<lparr>min_corner = [0,0,0], max_corner = [4,2,2]\<rparr>)
   \<and> length (max_corner \<lparr>min_corner = [0,0,0], max_corner = [4,2,2]\<rparr>)
       = length (min_corner \<lparr>min_corner = [0,0,0], max_corner = [4,2,2]\<rparr>)
   \<and> ContainsNonInclusive (snd (split_box \<lparr>min_corner = [0,0,0], max_corner = [4,2,2]\<rparr> 0 1)) (point_box [1,1,1])
   \<and> \<not> ContainsNonInclusive (fst (split_box \<lparr>min_corner = [0,0,0], max_corner = [4,2,2]\<rparr> 0 1)) (point_box [1,1,1])"
  using split_owner_unique[of 0 "\<lparr>min_corner = [0,0,0], max_corner = [4,2,2]\<rparr>" 1 "[1,1,1]"]
  by (simp add: split_box_def box_set_def point_box_def ContainsNonInclusive_def)

subsection \<open>\<open>RTree::empty\<close>\<close>

text \<open>
  Claim C9. \<open>RTree::empty()\<close> is the truth value of the root pointer: it is false
  for a default-constructed tree, and true for the tree any insertion returns.
\<close>

theorem RTree_empty_is_root_pointer:
  "\<not> RTree_empty (RTree_new :: 'k rtree)
   \<and> RTree_empty t = (root_node_ptr t \<noteq> None)
   \<and> (RTree_insert S v t = Some t' \<longrightarrow> RTree_empty t')"
  by (auto simp: RTree_empty_def RTree_new_def RTree_insert_def)

text \<open>
  Inserting one value into the default-constructed tree (with the default strategy
  \<open>Quadratic<10,4>\<close>) returns, and \<open>empty()\<close> is true afterwards.
\<close>

theorem RTree_empty_is_root_pointer_witness:
  "\<exists>t'. RTree_insert (Quadratic 10 4) (point_box [1,2,3], 7::nat) RTree_new = Some t'
        \<and> RTree_empty t' \<and> \<not> RTree_empty (RTree_new :: nat rtree)"
proof -
  have "\<exists>t'. RTree_insert (Quadratic 10 4) (point_box [1,2,3], 7::nat) RTree_new = Some t'"
    by (simp add: RTree_insert_def RTree_new_def tree_insert_def find_best_fit_in_tree_def
        new_node_def Quadratic_def)
  then obtain t' where t': "RTree_insert (Quadratic 10 4) (point_box [1,2,3], 7::nat) RTree_new = Some t'" ..
  with RTree_empty_is_root_pointer[where S = "Quadratic 10 4" and v = "(point_box [1,2,3], 7::nat)"
      and t = RTree_new and t' = t']
  show ?thesis by blast
qed

subsection \<open>\<open>Exhaustive::remove\<close>\<close>

lemma remove_if_loop_length:
  "length (fst (foldl (\<lambda>(ys, first) i. if \<not> p (ys ! i) then (ys[first := ys ! i], Suc first)
                                   else (ys, first)) (ys, f) js)) = length ys"
  by (induction js arbitrary: ys f) auto

lemma std_remove_if_length: "length (fst (std_remove_if p xs)) = length xs"
  by (simp add: std_remove_if_def Let_def remove_if_loop_length)

lemma ex_query_filter:
  "foldl (\<lambda>(out, cnt) v. if P v then (out @ [v], Suc cnt) else (out, cnt)) (out0, c0) vs
     = (out0 @ filter P vs, c0 + length (filter P vs))"
  by (induction vs arbitrary: out0 c0) auto

lemma ex_query_spatial_eq:
  "ex_query_spatial pred s = (filter (\<lambda>v. pred (fst v) True) (ex_values s),
                              length (filter (\<lambda>v. pred (fst v) True) (ex_values s)))"
  unfolding ex_query_spatial_def by (simp add: ex_query_filter)

text \<open>
  Claim C10. \<open>Exhaustive::remove(v)\<close> leaves the number of stored values as it was:
  \<open>std::remove_if\<close> runs over the list and its result is dropped. A spatial query
  whose predicate accepts every bound therefore still emits as many items as were
  stored before the removal.
\<close>

theorem ex_remove_keeps_size:
  "ex_size (ex_remove v s) = ex_size s
   \<and> ex_query_spatial (\<lambda>b is_leaf. True) (ex_remove v s) = (ex_values (ex_remove v s), ex_size s)"
  by (simp add: ex_size_def ex_remove_def ex_restretch_def ex_remove_value_def
      std_remove_if_length ex_query_spatial_eq)

text \<open>
  Removing the first of two stored values: the second value is moved to the front and
  stays at the back as well.
\<close>

lemma ex_remove_example:
  "ex_values (ex_remove (point_box [0,0,0], 1::nat)
      \<lparr>ex_values = [(point_box [0,0,0], 1), (point_box [5,5,5], 2)], ex_bound = point_box [0,0,0]\<rparr>)
   = [(point_box [5,5,5], 2), (point_box [5,5,5], 2)]"
  by (simp add: ex_remove_def ex_restretch_def ex_remove_value_def std_remove_if_def find_if_def
      point_box_def)

subsection \<open>The round trip of \<open>UniqueMap\<close>\<close>

lemma assign_unique_good:
  assumes "\<forall>k\<in>set ks. k < length vout" "i + length ks \<le> length vin"
      and "\<forall>j<length ks. vin ! (i + j) = V ! (ks ! j)"
  shows "\<exists>vout'. assign_unique ks vin i vout = Some vout' \<and> length vout' = length vout
           \<and> (\<forall>k<length vout. k \<in> set ks \<or> vout ! k = V ! k \<longrightarrow> vout' ! k = V ! k)"
  using assms
proof (induction ks arbitrary: i vout)
  case Nil
  then show ?case by simp
next
  case (Cons k ks)
  let ?v = "vout[k := vin ! i]"
  have k: "k < length vout" "i < length vin" using Cons.prems by auto
  have vk: "vin ! i = V ! k" using Cons.prems(3)[rule_format, of 0] by simp
  have 1: "\<forall>k\<in>set ks. k < length ?v" using Cons.prems by simp
  have 2: "Suc i + length ks \<le> length vin" using Cons.prems by simp
  have 3: "\<forall>j<length ks. vin ! (Suc i + j) = V ! (ks ! j)"
    using Cons.prems(3) by (auto dest: spec[of _ "Suc _"])
  from Cons.IH[OF 1 2 3] obtain vout' where
    r: "assign_unique ks vin (Suc i) ?v = Some vout'" "length vout' = length ?v"
       "\<forall>k'<length ?v. k' \<in> set ks \<or> ?v ! k' = V ! k' \<longrightarrow> vout' ! k' = V ! k'"
    by blast
  have "\<forall>k'<length vout. k' \<in> set (k # ks) \<or> vout ! k' = V ! k' \<longrightarrow> vout' ! k' = V ! k'"
  proof (intro allI impI)
    fix k' assume a: "k' < length vout" "k' \<in> set (k # ks) \<or> vout ! k' = V ! k'"
    have "k' \<in> set ks \<or> ?v ! k' = V ! k'"
      using a k vk by (cases "k' = k") auto
    with r(3) a(1) show "vout' ! k' = V ! k'" by auto
  qed
  with r k show ?case by simp
qed

lemma copy_duplicates_good:
  assumes "\<forall>p\<in>set ps. fst p < length vout \<and> snd p < length vout \<and> V ! fst p = V ! snd p
              \<and> vout ! snd p = V ! snd p"
  shows "\<exists>vout'. copy_duplicates ps vout = Some vout' \<and> length vout' = length vout
           \<and> (\<forall>k<length vout. k \<in> fst ` set ps \<or> vout ! k = V ! k \<longrightarrow> vout' ! k = V ! k)"
  using assms
proof (induction ps arbitrary: vout)
  case Nil
  then show ?case by simp
next
  case (Cons p ps)
  let ?v = "vout[fst p := vout ! snd p]"
  have p: "fst p < length vout" "snd p < length vout" "V ! fst p = V ! snd p" "vout ! snd p = V ! snd p"
    using Cons.prems by auto
  have good: "?v ! k = V ! k" if "k < length vout" "k = fst p \<or> vout ! k = V ! k" for k
    using that p by (cases "k = fst p") auto
  have 1: "\<forall>q\<in>set ps. fst q < length ?v \<and> snd q < length ?v \<and> V ! fst q = V ! snd q
              \<and> ?v ! snd q = V ! snd q"
    using Cons.prems good by auto
  from Cons.IH[OF 1] obtain vout' where
    r: "copy_duplicates ps ?v = Some vout'" "length vout' = length ?v"
       "\<forall>k<length ?v. k \<in> fst ` set ps \<or> ?v ! k = V ! k \<longrightarrow> vout' ! k = V ! k"
    by blast
  have "\<forall>k<length vout. k \<in> fst ` set (p # ps) \<or> vout ! k = V ! k \<longrightarrow> vout' ! k = V ! k"
  proof (intro allI impI)
    fix k assume a: "k < length vout" "k \<in> fst ` set (p # ps) \<or> vout ! k = V ! k"
    then have "k \<in> fst ` set ps \<or> ?v ! k = V ! k" using good[of k] by auto
    with r(3) a(1) show "vout' ! k = V ! k" by auto
  qed
  with r p show ?case by simp
qed

lemma setup_inv_step:
  assumes "setup_inv V i st"
  shows "setup_inv V (Suc i) (setup_step V st i)"
proof -
  obtain m u nu where st: "st = (m, u, nu)" by (cases st) auto
  show ?thesis
  proof (cases "m (V ! i)")
    case None
    with assms st show ?thesis
      by (auto simp: setup_inv_def setup_step_def atLeast0_lessThan_Suc)
  next
    case (Some k)
    with assms st show ?thesis
      by (auto simp: setup_inv_def setup_step_def atLeast0_lessThan_Suc)
  qed
qed

lemma setup_inv_fold:
  "setup_inv V i (foldl (setup_step V) (Map.empty, [], []) [0 ..< i])"
proof (induction i)
  case 0
  show ?case by (simp add: setup_inv_def)
next
  case (Suc i)
  then show ?case by (simp add: setup_inv_step)
qed

text \<open>
  Claim C8. After \<open>setup(V)\<close>, \<open>reduce_to_unique\<close> applied to \<open>V\<close> returns a vector
  \<open>U\<close>, and \<open>expand_to_non_unique\<close> applied to \<open>U\<close> returns \<open>V\<close>, whatever the
  output vector held before and whatever value \<open>resize\<close> fills in.
\<close>

theorem unique_map_round_trip:
  "\<exists>U. reduce_to_unique (UniqueMap_setup V) V = Some U
       \<and> expand_to_non_unique (UniqueMap_setup V) U dflt vout = Some V"
proof -
  obtain m u nu where f: "foldl (setup_step V) (Map.empty, [], []) [0 ..< length V] = (m, u, nu)"
    by (cases "foldl (setup_step V) (Map.empty, [], []) [0 ..< length V]") auto
  have s: "UniqueMap_setup V = \<lparr>unique_idx = u, non_unique_map = nu\<rparr>" by (simp add: UniqueMap_setup_def f)
  from setup_inv_fold[of V "length V"] f
  have cover: "set u \<union> fst ` set nu = {0 ..< length V}"
    and len: "length u + length nu = length V"
    and dup: "\<forall>p\<in>set nu. snd p \<in> set u \<and> V ! fst p = V ! snd p"
    by (auto simp: setup_inv_def)
  have ulen: "\<forall>k\<in>set u. k < length V" using cover by auto
  let ?U = "map (\<lambda>k. V ! k) u"
  have red: "reduce_to_unique (UniqueMap_setup V) V = Some ?U"
    using ulen by (simp add: reduce_to_unique_def s list_all_iff)
  let ?r = "resize (length V) dflt vout"
  have rl: "length ?r = length V" by (simp add: resize_def)
  have "\<exists>v1. assign_unique u ?U 0 ?r = Some v1 \<and> length v1 = length ?r
           \<and> (\<forall>k<length ?r. k \<in> set u \<or> ?r ! k = V ! k \<longrightarrow> v1 ! k = V ! k)"
    by (rule assign_unique_good) (use ulen rl in auto)
  then obtain v1 where v1: "assign_unique u ?U 0 ?r = Some v1" "length v1 = length V"
    "\<forall>k\<in>set u. v1 ! k = V ! k"
    using rl ulen by auto
  have "\<exists>v2. copy_duplicates nu v1 = Some v2 \<and> length v2 = length v1
           \<and> (\<forall>k<length v1. k \<in> fst ` set nu \<or> v1 ! k = V ! k \<longrightarrow> v2 ! k = V ! k)"
  proof (rule copy_duplicates_good, intro ballI)
    fix p assume p: "p \<in> set nu"
    then have "fst p \<in> {0 ..< length V}" using cover by blast
    moreover have "snd p \<in> set u" "V ! fst p = V ! snd p" using dup p by auto
    ultimately show "fst p < length v1 \<and> snd p < length v1 \<and> V ! fst p = V ! snd p
          \<and> v1 ! snd p = V ! snd p"
      using v1 ulen by auto
  qed
  then obtain v2 where v2: "copy_duplicates nu v1 = Some v2" "length v2 = length V"
    "\<forall>k<length V. k \<in> fst ` set nu \<or> v1 ! k = V ! k \<longrightarrow> v2 ! k = V ! k"
    using v1(2) by auto
  have "v2 ! k = V ! k" if "k < length V" for k
  proof -
    from that cover have "k \<in> set u \<or> k \<in> fst ` set nu" by auto
    with v1(3) v2(3) that show ?thesis by blast
  qed
  with v2(2) have "v2 = V" by (simp add: nth_equalityI)
  with v1 v2 red len show ?thesis
    by (simp add: expand_to_non_unique_def s)
qed

lemma unique_map_example:
  "UniqueMap_setup [10::nat, 20, 10, 30, 20] = \<lparr>unique_idx = [0, 1, 3], non_unique_map = [(2, 0), (4, 1)]\<rparr>"
  by (simp add: UniqueMap_setup_def setup_step_def upt_rec)

subsection \<open>Choice of the child in the insertion descent\<close>

lemma flt_Fin: "flt (Fin a) (Fin b) = (a < b)"
  by simp

lemma flt_irrefl: "\<not> flt x x"
  by (cases x) simp_all

lemma feq_Fin: "feq (Fin a) (Fin b) = (a = b)"
  by simp

lemma minimum_increase_real:
  assumes "\<forall>j<length cs. increase_to_hold bb cs j = Fin (r j)" "k \<le> length cs" "i < length cs"
  shows "minimum_increase bb cs k i \<longleftrightarrow> (\<forall>j<k. r i \<le> r j)"
  using assms by (auto simp: minimum_increase_def list_all_iff not_less)

lemma tied_children_Suc:
  "tied_children bb cs (Suc k)
     = filter (minimum_increase bb cs (Suc k)) [0 ..< k]
       @ (if minimum_increase bb cs (Suc k) k then [k] else [])"
  by (simp add: tied_children_def)

lemma tied_children_less:
  assumes inc: "\<forall>j<length cs. increase_to_hold bb cs j = Fin (r j)" and k: "k < length cs"
    and i: "i < k" "\<forall>j<k. r i \<le> r j" and lt: "r k < r i"
  shows "tied_children bb cs (Suc k) = [k]"
proof -
  have "\<not> minimum_increase bb cs (Suc k) j" if "j < k" for j
    using minimum_increase_real[OF inc, of "Suc k" j] that k i(2) lt by force
  then have "filter (minimum_increase bb cs (Suc k)) [0 ..< k] = []" by (simp add: filter_empty_conv)
  moreover have "minimum_increase bb cs (Suc k) k"
    using minimum_increase_real[OF inc, of "Suc k" k] k i(2) lt by (force simp: less_Suc_eq)
  ultimately show ?thesis by (simp add: tied_children_Suc)
qed

lemma tied_children_equal:
  assumes inc: "\<forall>j<length cs. increase_to_hold bb cs j = Fin (r j)" and k: "k < length cs"
    and i: "i < k" "\<forall>j<k. r i \<le> r j" and eq: "r k = r i"
  shows "tied_children bb cs (Suc k) = tied_children bb cs k @ [k]"
proof -
  have "minimum_increase bb cs (Suc k) j \<longleftrightarrow> minimum_increase bb cs k j" if "j < k" for j
    using minimum_increase_real[OF inc, of "Suc k" j] minimum_increase_real[OF inc, of k j]
      that k i eq by (auto simp: less_Suc_eq)
  then have "filter (minimum_increase bb cs (Suc k)) [0 ..< k] = tied_children bb cs k"
    unfolding tied_children_def by (intro filter_cong) simp_all
  moreover have "minimum_increase bb cs (Suc k) k"
    using minimum_increase_real[OF inc, of "Suc k" k] k i(2) eq by (auto simp: less_Suc_eq)
  ultimately show ?thesis by (simp add: tied_children_Suc)
qed

lemma tied_children_greater:
  assumes inc: "\<forall>j<length cs. increase_to_hold bb cs j = Fin (r j)" and k: "k < length cs"
    and i: "i < k" "\<forall>j<k. r i \<le> r j" and gt: "r i < r k"
  shows "tied_children bb cs (Suc k) = tied_children bb cs k"
proof -
  have "minimum_increase bb cs (Suc k) j \<longleftrightarrow> minimum_increase bb cs k j" if "j < k" for j
  proof -
    have "r j \<le> r k" if "\<forall>l<k. r j \<le> r l" using that i(1) gt by force
    then show ?thesis
      using minimum_increase_real[OF inc, of "Suc k" j] minimum_increase_real[OF inc, of k j]
        \<open>j < k\<close> k by (auto simp: less_Suc_eq)
  qed
  then have "filter (minimum_increase bb cs (Suc k)) [0 ..< k] = tied_children bb cs k"
    unfolding tied_children_def by (intro filter_cong) simp_all
  moreover have "\<not> minimum_increase bb cs (Suc k) k"
  proof -
    have "\<not> (\<forall>j<Suc k. r k \<le> r j)" using i(1) gt by (auto intro!: exI[of _ i])
    then show ?thesis using minimum_increase_real[OF inc, of "Suc k" k] k by simp
  qed
  ultimately show ?thesis by (simp add: tied_children_Suc)
qed

lemma tie_choice_snoc:
  "tie_choice bb cs k = Some i \<Longrightarrow> tied_children bb cs k' = tied_children bb cs k @ [j]
     \<Longrightarrow> tie_choice bb cs k' = Some (tie_rule cs i j)"
  by (auto simp: tie_choice_def split: list.splits)

lemma best_fit_inv_step:
  assumes inv: "best_fit_inv bb cs k st" and k: "k < length cs"
    and inc: "\<forall>j<length cs. increase_to_hold bb cs j = Fin (r j) \<and> r j < value_max"
  shows "best_fit_inv bb cs (Suc k) (best_fit_step bb st (k, cs ! k))"
proof -
  from inc have inc': "\<forall>j<length cs. increase_to_hold bb cs j = Fin (r j)" by simp
  from inc k have ck: "IncreaseToHold (getBound (cs ! k)) bb = Fin (r k)" "r k < value_max"
    by (simp_all add: increase_to_hold_def)
  from inv obtain best m where st: "st = Some (best, m)"
    by (cases st) (auto simp: best_fit_inv_def)
  show ?thesis
  proof (cases best)
    case None
    with inv st have k0: "k = 0" and m: "m = Fin value_max" by (simp_all add: best_fit_inv_def)
    have t: "tied_children bb cs (Suc 0) = [0]"
      by (simp add: tied_children_def minimum_increase_def flt_irrefl)
    have "best_fit_step bb st (k, cs ! k) = Some (Some (0, cs ! 0), Fin (r 0))"
      using ck by (simp add: st None m k0 best_fit_step_def)
    moreover have "minimum_increase bb cs (Suc 0) 0"
      by (simp add: minimum_increase_def flt_irrefl)
    ultimately show ?thesis
      using inc k by (simp add: best_fit_inv_def k0 tie_choice_def t)
  next
    case (Some ic)
    obtain i c where ic: "ic = (i, c)" by (cases ic) auto
    from inv st Some ic have i: "i < k" and c: "c = cs ! i" and m: "m = Fin (r i)"
      and mi: "minimum_increase bb cs k i" and tc: "tie_choice bb cs k = Some i"
      using inc k by (simp_all add: best_fit_inv_def)
    from mi have le: "\<forall>j<k. r i \<le> r j"
      using minimum_increase_real[OF inc', of k i] k i by simp
    consider "r k < r i" | "r k = r i" | "r i < r k" by linarith
    then show ?thesis
    proof cases
      case 1
      have s: "best_fit_step bb st (k, cs ! k) = Some (Some (k, cs ! k), Fin (r k))"
        using ck 1 by (simp add: st Some ic m best_fit_step_def)
      have t: "tied_children bb cs (Suc k) = [k]"
        by (rule tied_children_less[OF inc' k i le 1])
      have "minimum_increase bb cs (Suc k) k"
        using minimum_increase_real[OF inc', of "Suc k" k] k le 1 by (force simp: less_Suc_eq)
      then show ?thesis
        using inc k by (simp add: s best_fit_inv_def tie_choice_def t)
    next
      case 2
      have s: "best_fit_step bb st (k, cs ! k) = Some (Some (tie_rule cs i k, cs ! tie_rule cs i k), Fin (r i))"
        using ck 2 by (simp add: st Some ic m c best_fit_step_def tie_rule_def)
      have t: "tied_children bb cs (Suc k) = tied_children bb cs k @ [k]"
        by (rule tied_children_equal[OF inc' k i le 2])
      have r: "r (tie_rule cs i k) = r i" "tie_rule cs i k < Suc k"
        using 2 i by (simp_all add: tie_rule_def)
      have "minimum_increase bb cs (Suc k) (tie_rule cs i k)"
        using minimum_increase_real[OF inc', of "Suc k" "tie_rule cs i k"] k le 2 r
        by (auto simp: less_Suc_eq)
      then show ?thesis
        using inc k r by (simp add: s best_fit_inv_def tie_choice_snoc[OF tc t])
    next
      case 3
      have s: "best_fit_step bb st (k, cs ! k) = Some (Some (i, cs ! i), Fin (r i))"
        using ck 3 by (simp add: st Some ic m c best_fit_step_def)
      have t: "tied_children bb cs (Suc k) = tied_children bb cs k"
        by (rule tied_children_greater[OF inc' k i le 3])
      have tc': "tie_choice bb cs (Suc k) = Some i"
        using tc by (simp add: tie_choice_def t)
      have "minimum_increase bb cs (Suc k) i"
        using minimum_increase_real[OF inc', of "Suc k" i] k le 3 i by (auto simp: less_Suc_eq)
      then show ?thesis
        using i inc k tc' by (simp add: s best_fit_inv_def)
    qed
  qed
qed

lemma best_fit_fold_inv:
  assumes inc: "\<forall>j<length cs. increase_to_hold bb cs j = Fin (r j) \<and> r j < value_max"
    and k: "k \<le> length cs"
  shows "best_fit_inv bb cs k
           (foldl (best_fit_step bb) (Some (None, Fin value_max)) (enumerate 0 (take k cs)))"
  using k
proof (induction k)
  case 0
  show ?case by (simp add: best_fit_inv_def)
next
  case (Suc k)
  then have k: "k < length cs" by simp
  have "enumerate 0 (take (Suc k) cs) = enumerate 0 (take k cs) @ [(k, cs ! k)]"
    using k by (simp add: take_Suc_conv_app_nth enumerate_append_eq)
  then show ?case
    using best_fit_inv_step[OF Suc.IH k inc] k by simp
qed

text \<open>
  C6. The child chosen in the descent has the minimum increase-to-hold; but a tie is not
  broken towards the smaller area first and towards the smaller child count only then.
  For a page whose first child is a page and whose children's increases all are
  numbers below \<open>max()\<close>,
  \<open>find_best_fit_in_node\<close> answers the child that the two-part rule \<open>tie_choice\<close>
  names: the children of minimum increase are passed in the order of the list, and
  the choice moves from the current one to the next as soon as that has a smaller
  area or, by itself, a smaller child count.
\<close>

theorem find_best_fit_in_node_tie_rule:
  assumes "cs \<noteq> []" "\<not> isLeaf (hd cs)"
      and "\<forall>c\<in>set cs. \<exists>x. IncreaseToHold (getBound c) bb = Fin x \<and> x < value_max"
  shows "\<exists>i. find_best_fit_in_node bb (Page cs b) = Some i \<and> i < length cs
            \<and> minimum_increase bb cs (length cs) i
            \<and> tie_choice bb cs (length cs) = Some i"
proof -
  from assms(3) have "\<forall>j<length cs. \<exists>x. increase_to_hold bb cs j = Fin x \<and> x < value_max"
    by (simp add: increase_to_hold_def)
  then obtain r where inc: "\<forall>j<length cs. increase_to_hold bb cs j = Fin (r j) \<and> r j < value_max"
    by metis
  from best_fit_fold_inv[OF inc order_refl]
  have inv: "best_fit_inv bb cs (length cs)
               (foldl (best_fit_step bb) (Some (None, Fin value_max)) (enumerate 0 cs))"
    by simp
  obtain front rest where cs: "cs = front # rest" using assms(1) by (cases cs) auto
  from inv obtain i c m where
    st: "foldl (best_fit_step bb) (Some (None, Fin value_max)) (enumerate 0 cs) = Some (Some (i, c), m)"
    using assms(1)
    by (cases "foldl (best_fit_step bb) (Some (None, Fin value_max)) (enumerate 0 cs)")
       (auto simp: best_fit_inv_def split: option.splits)
  have "find_best_fit_in_node bb (Page cs b) = Some i"
    using st assms(2) cs by (simp add: find_best_fit_in_node_def)
  with inv st show ?thesis by (simp add: best_fit_inv_def)
qed

lemma tie_increase:
  "IncreaseToHold (getBound tie_page_a) tie_query = Fin 0"
  "IncreaseToHold (getBound tie_page_b) tie_query = Fin 0"
  by (simp_all add: tie_page_a_def tie_page_b_def tie_query_def point_box_def IncreaseToHold_def
      box_Union_def stretch_def area_def fround_simps)

lemma tie_area: "node_area tie_page_a = Fin 1" "node_area tie_page_b = Fin 2"
  by (simp_all add: tie_page_a_def tie_page_b_def node_area_def area_def fround_simps)

lemma tie_size: "node_size tie_page_a = 5" "node_size tie_page_b = 4"
  by (simp_all add: tie_page_a_def tie_page_b_def)

lemma tie_not_leaf: "\<not> isLeaf tie_page_a" "\<not> isLeaf tie_page_b"
  by (simp_all add: tie_page_a_def tie_page_b_def)

text \<open>
  On the example root both pages need no enlargement for the query point. The first
  page has the smaller area (1 against 2), the second has fewer children (4 against
  5), and the second is chosen: the tie is not broken towards the smaller area first.
\<close>

theorem find_best_fit_tie_counterexample:
  "find_best_fit_in_node tie_query tie_root = Some 1
   \<and> \<not> isLeaf (nodes tie_root ! 0) \<and> \<not> isLeaf (nodes tie_root ! 1)
   \<and> IncreaseToHold (getBound (nodes tie_root ! 0)) tie_query = Fin 0
   \<and> IncreaseToHold (getBound (nodes tie_root ! 1)) tie_query = Fin 0
   \<and> node_area (nodes tie_root ! 0) = Fin 1 \<and> node_area (nodes tie_root ! 1) = Fin 2"
  using value_max_gt
  by (simp add: tie_root_def find_best_fit_in_node_def tie_not_leaf enumerate_eq_zip upt_rec
      best_fit_step_def tie_increase tie_area tie_size)

text \<open>
  The example root meets the hypotheses of the theorem: both children are of
  minimum increase, and the rule moves the choice from the first to
  the second, which has fewer children.
\<close>

theorem find_best_fit_in_node_tie_rule_witness:
  "[tie_page_a, tie_page_b] \<noteq> [] \<and> \<not> isLeaf (hd [tie_page_a, tie_page_b])
   \<and> IncreaseToHold (getBound tie_page_a) tie_query = Fin 0
   \<and> IncreaseToHold (getBound tie_page_b) tie_query = Fin 0 \<and> 0 < value_max
   \<and> tied_children tie_query [tie_page_a, tie_page_b] 2 = [0, 1]
   \<and> tie_choice tie_query [tie_page_a, tie_page_b] 2 = Some 1
   \<and> find_best_fit_in_node tie_query (Page [tie_page_a, tie_page_b] (getBound tie_root)) = Some 1"
proof -
  let ?cs = "[tie_page_a, tie_page_b]"
  have 1: "?cs \<noteq> []" by simp
  have 2: "\<not> isLeaf (hd ?cs)" by (simp add: tie_not_leaf)
  have 3: "\<forall>c\<in>set ?cs. \<exists>x. IncreaseToHold (getBound c) tie_query = Fin x \<and> x < value_max"
    using value_max_gt by (simp add: tie_increase)
  have t: "tied_children tie_query ?cs 2 = [0, 1]"
    by (simp add: tied_children_def minimum_increase_def increase_to_hold_def tie_increase upt_rec)
  have c: "tie_choice tie_query ?cs 2 = Some 1"
    by (simp add: tie_choice_def t tie_rule_def tie_area tie_size)
  from find_best_fit_in_node_tie_rule[OF 1 2 3, of "getBound tie_root"] c
  have "find_best_fit_in_node tie_query (Page ?cs (getBound tie_root)) = Some 1"
    by (auto simp: numeral_2_eq_2)
  with 1 2 t c tie_increase value_max_gt show ?thesis by simp
qed

subsection \<open>\<open>split_node\<close>\<close>

lemma new_node_eq: "new_node = Page [] empty_bound"
  by (simp add: new_node_def page_restretch_def empty_bound_def)

lemma page_restretch_eq: "page_restretch cs b = stretch_all (reset b) cs"
  by (simp add: page_restretch_def stretch_all_def)

lemma stretch_all_snoc: "stretch_all e (cs @ [c]) = stretch (stretch_all e cs) (getBound c)"
  by (simp add: stretch_all_def)

lemma stretch_all_append: "stretch_all e (cs @ ds) = stretch_all (stretch_all e cs) ds"
  by (simp add: stretch_all_def)

lemma list_remove_unique:
  assumes "distinct (map fst xs)" "map_of xs t = Some c"
  shows "mset xs = add_mset (t, c) (mset (list_remove t xs))
         \<and> Suc (length (list_remove t xs)) = length xs
         \<and> distinct (map fst (list_remove t xs))"
  using assms
proof (induction xs)
  case Nil
  then show ?case by simp
next
  case (Cons x xs)
  show ?case
  proof (cases "fst x = t")
    case True
    with Cons.prems have x: "x = (t, c)" by (cases x) auto
    from Cons.prems True have "t \<notin> fst ` set xs" by auto
    then have "filter (\<lambda>c. fst c \<noteq> t) xs = xs" by (auto simp: filter_id_conv)
    with x Cons.prems show ?thesis by (simp add: list_remove_def)
  next
    case False
    with Cons.prems have "map_of xs t = Some c" "distinct (map fst xs)" by (cases x; auto)+
    from Cons.IH[OF this(2,1)] False Cons.prems show ?thesis
      by (auto simp: list_remove_def distinct_map_filter)
  qed
qed

lemma take_child_spec:
  assumes "distinct (map fst parent)" "take_child t parent into = Some (parent', into')"
  shows "\<exists>c cs b. into = Page cs b \<and> into' = Page (cs @ [c]) (stretch b (getBound c))
           \<and> mset (map snd parent) = add_mset c (mset (map snd parent'))
           \<and> Suc (length parent') = length parent \<and> distinct (map fst parent')"
proof -
  from assms(2) obtain c where c: "map_of parent t = Some c"
    and ins: "node_insert into c = Some into'" and p': "parent' = list_remove t parent"
    by (auto simp: take_child_def split: option.splits)
  from ins obtain cs b where into: "into = Page cs b" "into' = Page (cs @ [c]) (stretch b (getBound c))"
    by (cases into) auto
  from list_remove_unique[OF assms(1) c] p'
  have m: "mset parent = add_mset (t, c) (mset parent')" and l: "Suc (length parent') = length parent"
    and d: "distinct (map fst parent')" by auto
  from m have "mset (map snd parent) = add_mset c (mset (map snd parent'))"
    by (metis image_mset_add_mset mset_map snd_conv)
  with into l d show ?thesis by blast
qed

lemma take_child_total:
  assumes "t \<in> fst ` set parent"
  shows "\<exists>parent' into'. take_child t parent (Page cs b) = Some (parent', into')"
proof -
  from assms obtain c where "map_of parent t = Some c"
    by (metis (no_types, opaque_lifting) domD dom_map_of_conv_image_fst)
  then show ?thesis by (simp add: take_child_def)
qed

lemma grown_new: "grown new_node"
  by (simp add: grown_def new_node_eq stretch_all_def)

lemma take_child_grown:
  assumes "distinct (map fst parent)" "take_child t parent into = Some (parent', into')" "grown into"
  shows "grown into' \<and> node_size into' = Suc (node_size into)
         \<and> mset (map snd parent) + mset (nodes into) = mset (map snd parent') + mset (nodes into')
         \<and> Suc (length parent') = length parent \<and> distinct (map fst parent')"
proof -
  from take_child_spec[OF assms(1,2)] obtain c cs b where
    s: "into = Page cs b" "into' = Page (cs @ [c]) (stretch b (getBound c))"
       "mset (map snd parent) = add_mset c (mset (map snd parent'))"
       "Suc (length parent') = length parent" "distinct (map fst parent')" by blast
  from assms(3) s(1) have b: "b = stretch_all empty_bound cs" by (simp add: grown_def)
  have "grown into'" unfolding grown_def s(2) b by (simp add: stretch_all_snoc)
  with s show ?thesis by simp
qed

lemma split_loop_spec:
  assumes "split_loop S parent a b = Some (parent', a', b')"
      and "distinct (map fst parent)" "grown a" "grown b"
      and "min_children S \<le> length parent + node_size a" "min_children S \<le> length parent + node_size b"
  shows "distinct (map fst parent') \<and> grown a' \<and> grown b'
         \<and> mset (map snd parent') + mset (nodes a') + mset (nodes b')
             = mset (map snd parent) + mset (nodes a) + mset (nodes b)
         \<and> length parent' + node_size a' + node_size b' = length parent + node_size a + node_size b
         \<and> min_children S \<le> length parent' + node_size a'
         \<and> min_children S \<le> length parent' + node_size b'
         \<and> \<not> (length parent' > 0 \<and> length parent' + node_size a' > min_children S
                \<and> length parent' + node_size b' > min_children S)"
  using assms
proof (induction S parent a b rule: split_loop.induct)
  case (1 S parent a b)
  show ?case
  proof (cases "length parent > 0 \<and> length parent + node_size a > min_children S
                 \<and> length parent + node_size b > min_children S")
    case False
    with "1.prems"(1) have "parent' = parent \<and> a' = a \<and> b' = b"
      by (auto simp: split_loop.simps[of S parent a b] split: if_splits)
    with False "1.prems" show ?thesis by auto
  next
    case True
    with "1.prems"(1) obtain t side where pn: "pick_next S parent a b = Some (t, side)"
      by (auto simp: split_loop.simps[of S parent a b] split: option.splits)
    show ?thesis
    proof (cases side)
      case IntoA
      with "1.prems"(1) True pn obtain p1 a1 where
        tc: "take_child t parent a = Some (p1, a1)" and rec: "split_loop S p1 a1 b = Some (parent', a', b')"
        by (auto simp: split_loop.simps[of S parent a b] split: option.splits)
      from take_child_grown[OF "1.prems"(2) tc "1.prems"(3)] have
        g: "grown a1" "node_size a1 = Suc (node_size a)"
           "mset (map snd parent) + mset (nodes a) = mset (map snd p1) + mset (nodes a1)"
           "Suc (length p1) = length parent" "distinct (map fst p1)" by auto
      have ih: "distinct (map fst parent') \<and> grown a' \<and> grown b'
         \<and> mset (map snd parent') + mset (nodes a') + mset (nodes b')
             = mset (map snd p1) + mset (nodes a1) + mset (nodes b)
         \<and> length parent' + node_size a' + node_size b' = length p1 + node_size a1 + node_size b
         \<and> min_children S \<le> length parent' + node_size a'
         \<and> min_children S \<le> length parent' + node_size b'
         \<and> \<not> (length parent' > 0 \<and> length parent' + node_size a' > min_children S
                \<and> length parent' + node_size b' > min_children S)"
        using True g "1.prems"
        by (intro "1.IH"(1)[OF True pn _ IntoA tc _ rec]) auto
      with g show ?thesis by (simp add: add.commute add.left_commute)
    next
      case IntoB
      with "1.prems"(1) True pn obtain p1 b1 where
        tc: "take_child t parent b = Some (p1, b1)" and rec: "split_loop S p1 a b1 = Some (parent', a', b')"
        by (auto simp: split_loop.simps[of S parent a b] split: option.splits)
      from take_child_grown[OF "1.prems"(2) tc "1.prems"(4)] have
        g: "grown b1" "node_size b1 = Suc (node_size b)"
           "mset (map snd parent) + mset (nodes b) = mset (map snd p1) + mset (nodes b1)"
           "Suc (length p1) = length parent" "distinct (map fst p1)" by auto
      have ih: "distinct (map fst parent') \<and> grown a' \<and> grown b'
         \<and> mset (map snd parent') + mset (nodes a') + mset (nodes b')
             = mset (map snd p1) + mset (nodes a) + mset (nodes b1)
         \<and> length parent' + node_size a' + node_size b' = length p1 + node_size a + node_size b1
         \<and> min_children S \<le> length parent' + node_size a'
         \<and> min_children S \<le> length parent' + node_size b'
         \<and> \<not> (length parent' > 0 \<and> length parent' + node_size a' > min_children S
                \<and> length parent' + node_size b' > min_children S)"
        using True g "1.prems"
        by (intro "1.IH"(2)[OF True pn _ IntoB tc _ rec]) auto
      with g show ?thesis by (simp add: add.commute add.left_commute)
    qed
  qed
qed

lemma list_remove_front:
  assumes "distinct (map fst (c # cs))"
  shows "list_remove (fst c) (c # cs) = cs"
proof -
  from assms have "\<forall>x\<in>set cs. fst x \<noteq> fst c" by (auto simp: image_iff)
  then have "filter (\<lambda>x. fst x \<noteq> fst c) cs = cs" by (simp add: filter_id_conv)
  then show ?thesis by (simp add: list_remove_def)
qed

lemma dump_into_spec:
  assumes "distinct (map fst parent)" "grown into"
  shows "\<exists>into'. dump_into parent into = Some into' \<and> grown into'
           \<and> nodes into' = nodes into @ map snd parent"
  using assms
proof (induction parent arbitrary: into)
  case Nil
  then show ?case by simp
next
  case (Cons c cs)
  from Cons.prems(2) obtain xs where into: "into = Page xs (stretch_all empty_bound xs)"
    by (auto simp: grown_def)
  let ?i = "Page (xs @ [snd c]) (stretch (stretch_all empty_bound xs) (getBound (snd c)))"
  have g: "grown ?i" by (simp add: grown_def stretch_all_snoc)
  have d: "distinct (map fst cs)" using Cons.prems(1) by simp
  from Cons.IH[OF d g] obtain into' where
    r: "dump_into cs ?i = Some into'" "grown into'" "nodes into' = nodes ?i @ map snd cs" by blast
  have "dump_into (c # cs) into = dump_into cs ?i"
    using list_remove_front[OF Cons.prems(1)] into by simp
  with r into show ?case by simp
qed

text \<open>Whatever \<open>split_node\<close> returns is a partition of the children.\<close>

lemma split_node_partition:
  assumes "split_node S (Page cs pb) = Some (a, b, e)"
  shows "\<exists>as bs. a = Page as (stretch_all empty_bound as) \<and> b = Page bs (stretch_all empty_bound bs)
           \<and> mset as + mset bs = mset cs \<and> e = Page [] pb
           \<and> min_children S \<le> length as \<and> length as \<le> max_children S
           \<and> min_children S \<le> length bs \<and> length bs \<le> max_children S"
proof -
  let ?p0 = "enumerate 0 cs"
  have d0: "distinct (map fst ?p0)" by simp
  have m0: "mset (map snd ?p0) = mset cs" by (simp add: enumerate_eq_zip)
  from assms obtain sa sb p1 a1 p2 b1 p3 a3 b3 where
    tc1: "take_child sa ?p0 new_node = Some (p1, a1)"
    and tc2: "take_child sb p1 new_node = Some (p2, b1)"
    and lp: "split_loop S p2 a1 b1 = Some (p3, a3, b3)"
    and fin: "(if length p3 > 0
              then (if node_size a3 < min_children S
                    then map_option (\<lambda>a'. (a', b3)) (dump_into p3 a3)
                    else map_option (\<lambda>b'. (a3, b')) (dump_into p3 b3))
              else Some (a3, b3)) = Some (a, b)"
    and chk: "min_children S \<le> node_size a" "node_size a \<le> max_children S"
             "min_children S \<le> node_size b" "node_size b \<le> max_children S"
    and e: "e = Page [] pb"
    by (auto simp: split_node_def Let_def split: option.splits if_splits)
  from take_child_grown[OF d0 tc1 grown_new] have
    g1: "grown a1" "mset (map snd ?p0) + mset (nodes (new_node :: 'a node)) = mset (map snd p1) + mset (nodes a1)"
        "distinct (map fst p1)" by auto
  from take_child_grown[OF g1(3) tc2 grown_new] have
    g2: "grown b1" "mset (map snd p1) + mset (nodes (new_node :: 'a node)) = mset (map snd p2) + mset (nodes b1)"
        "distinct (map fst p2)" by auto
  have m2: "mset (map snd p2) + mset (nodes a1) + mset (nodes b1) = mset cs"
    using g1(2) g2(2) m0 by (simp add: new_node_eq)
  have "distinct (map fst p3) \<and> grown a3 \<and> grown b3
         \<and> mset (map snd p3) + mset (nodes a3) + mset (nodes b3)
             = mset (map snd p2) + mset (nodes a1) + mset (nodes b1)"
  proof (cases "min_children S \<le> length p2 + node_size a1 \<and> min_children S \<le> length p2 + node_size b1")
    case True
    from split_loop_spec[OF lp g2(3) g1(1) g2(1)] True show ?thesis by blast
  next
    case False
    then have "split_loop S p2 a1 b1 = Some (p2, a1, b1)"
      by (subst split_loop.simps) auto
    with lp g1 g2 show ?thesis by simp
  qed
  with m2 have s3: "distinct (map fst p3)" "grown a3" "grown b3"
    "mset (map snd p3) + mset (nodes a3) + mset (nodes b3) = mset cs" by auto
  have "grown a \<and> grown b \<and> mset (nodes a) + mset (nodes b) = mset cs"
  proof (cases "length p3 > 0")
    case False
    with fin s3 show ?thesis by simp
  next
    case True
    show ?thesis
    proof (cases "node_size a3 < min_children S")
      case a: True
      from dump_into_spec[OF s3(1,2)] obtain a' where
        "dump_into p3 a3 = Some a'" "grown a'" "nodes a' = nodes a3 @ map snd p3" by blast
      with fin True a s3 show ?thesis by (auto simp: ac_simps)
    next
      case a: False
      from dump_into_spec[OF s3(1,3)] obtain b' where
        "dump_into p3 b3 = Some b'" "grown b'" "nodes b' = nodes b3 @ map snd p3" by blast
      with fin True a s3 show ?thesis by (auto simp: ac_simps)
    qed
  qed
  then obtain as bs where "a = Page as (stretch_all empty_bound as)" "b = Page bs (stretch_all empty_bound bs)"
    "mset as + mset bs = mset cs" by (auto simp: grown_def)
  with chk e show ?thesis by auto
qed

lemma take_child_tags:
  assumes "take_child t parent into = Some (parent', into')"
  shows "fst ` set parent' = fst ` set parent - {t}"
proof -
  from assms have "parent' = list_remove t parent"
    by (auto simp: take_child_def split: option.splits)
  then show ?thesis by (auto simp: list_remove_def image_iff)
qed

lemma split_loop_total:
  assumes "\<forall>parent a b. parent \<noteq> [] \<longrightarrow>
             (\<exists>t side. pick_next S parent a b = Some (t, side) \<and> t \<in> fst ` set parent)"
      and "distinct (map fst parent)" "grown a" "grown b"
  shows "\<exists>r. split_loop S parent a b = Some r"
  using assms
proof (induction S parent a b rule: split_loop.induct)
  case (1 S parent a b)
  note nxt = "1.prems"(1)
  show ?case
  proof (cases "length parent > 0 \<and> length parent + node_size a > min_children S
                 \<and> length parent + node_size b > min_children S")
    case False
    then show ?thesis by (subst split_loop.simps) auto
  next
    case True
    then have "parent \<noteq> []" by auto
    with nxt obtain t side where pn: "pick_next S parent a b = Some (t, side)"
      and t: "t \<in> fst ` set parent" by blast
    from "1.prems"(3,4) obtain xs ys where ab: "a = Page xs (stretch_all empty_bound xs)"
      "b = Page ys (stretch_all empty_bound ys)" by (auto simp: grown_def)
    show ?thesis
    proof (cases side)
      case IntoA
      from take_child_total[OF t] ab obtain p1 a1 where tc: "take_child t parent a = Some (p1, a1)"
        by blast
      from take_child_grown[OF "1.prems"(2) tc "1.prems"(3)] have g: "grown a1" "distinct (map fst p1)"
        by auto
      from "1.IH"(1)[OF True pn _ IntoA tc _ nxt g(2) g(1) "1.prems"(4)]
      obtain r where "split_loop S p1 a1 b = Some r" by auto
      with True pn IntoA tc show ?thesis by (subst split_loop.simps) (cases r; simp)
    next
      case IntoB
      from take_child_total[OF t] ab obtain p1 b1 where tc: "take_child t parent b = Some (p1, b1)"
        by blast
      from take_child_grown[OF "1.prems"(2) tc "1.prems"(4)] have g: "grown b1" "distinct (map fst p1)"
        by auto
      from "1.IH"(2)[OF True pn _ IntoB tc _ nxt g(2) "1.prems"(3) g(1)]
      obtain r where "split_loop S p1 a b1 = Some r" by auto
      with True pn IntoB tc show ?thesis by (subst split_loop.simps) (cases r; simp)
    qed
  qed
qed

text \<open>
  The postcondition of \<open>split_node\<close>, for every strategy whose picks answer children.
  Let the strategy meet \<open>1 < min_children \<le> max_children / 2\<close> (its
  \<open>static_assert\<close>), let \<open>pick_seeds\<close> answer two different children of the page and
  \<open>pick_next\<close> always a child of the parent it is given (what their own assertions
  promise). Then for a page with \<open>max_children + 1\<close> children \<open>split_node\<close> returns:
  the two new pages have between \<open>min_children\<close> and \<open>max_children\<close> children each,
  their children together are exactly the children of the page, and the page is left
  without children. The model returns \<open>None\<close> when one of the final assertions fails, so
  they all hold.
\<close>

theorem split_node_postcondition:
  assumes mn: "1 < min_children S" "min_children S \<le> max_children S div 2"
      and sz: "length cs = max_children S + 1"
      and seeds: "\<exists>sa sb. pick_seeds S pb (enumerate 0 cs) = Some (sa, sb) \<and> sa \<noteq> sb
                    \<and> sa < length cs \<and> sb < length cs"
      and nxt: "\<forall>parent a b. parent \<noteq> [] \<longrightarrow>
             (\<exists>t side. pick_next S parent a b = Some (t, side) \<and> t \<in> fst ` set parent)"
  shows "\<exists>as ba bs bb. split_node S (Page cs pb) = Some (Page as ba, Page bs bb, Page [] pb)
           \<and> min_children S \<le> length as \<and> length as \<le> max_children S
           \<and> min_children S \<le> length bs \<and> length bs \<le> max_children S
           \<and> mset as + mset bs = mset cs"
proof -
  let ?p0 = "enumerate 0 cs"
  let ?m = "min_children S" and ?M = "max_children S"
  have m2: "2 * ?m \<le> ?M" using mn(2) by simp
  have d0: "distinct (map fst ?p0)" by simp
  have tags0: "fst ` set ?p0 = {0 ..< length cs}" by (simp add: enumerate_eq_zip flip: set_map)
  from seeds obtain sa sb where ps: "pick_seeds S pb ?p0 = Some (sa, sb)" and ne: "sa \<noteq> sb"
    and lt: "sa < length cs" "sb < length cs" by blast
  have "sa \<in> fst ` set ?p0" using lt tags0 by simp
  from take_child_total[OF this, of "[]" empty_bound] obtain p1 a1 where
    tc1: "take_child sa ?p0 new_node = Some (p1, a1)" by (auto simp: new_node_eq)
  from take_child_grown[OF d0 tc1 grown_new] have
    g1: "grown a1" "node_size a1 = 1" "Suc (length p1) = length cs" "distinct (map fst p1)"
    by (auto simp: new_node_eq)
  have "sb \<in> fst ` set p1" using take_child_tags[OF tc1] lt ne tags0 by simp
  from take_child_total[OF this, of "[]" empty_bound] obtain p2 b1 where
    tc2: "take_child sb p1 new_node = Some (p2, b1)" by (auto simp: new_node_eq)
  from take_child_grown[OF g1(4) tc2 grown_new] have
    g2: "grown b1" "node_size b1 = 1" "Suc (length p2) = length p1" "distinct (map fst p2)"
    by (auto simp: new_node_eq)
  from split_loop_total[OF nxt g2(4) g1(1) g2(1)] obtain p3 a3 b3 where
    lp: "split_loop S p2 a1 b1 = Some (p3, a3, b3)" by (metis prod_cases3)
  have pre: "?m \<le> length p2 + node_size a1" "?m \<le> length p2 + node_size b1"
    using g1 g2 sz m2 by auto
  from split_loop_spec[OF lp g2(4) g1(1) g2(1) pre] have
    s3: "distinct (map fst p3)" "grown a3" "grown b3"
        "length p3 + node_size a3 + node_size b3 = length p2 + node_size a1 + node_size b1"
        "?m \<le> length p3 + node_size a3" "?m \<le> length p3 + node_size b3"
        "\<not> (length p3 > 0 \<and> length p3 + node_size a3 > ?m \<and> length p3 + node_size b3 > ?m)"
    by auto
  have tot: "length p3 + node_size a3 + node_size b3 = ?M + 1"
    using s3(4) g1 g2 sz by simp
  have "\<exists>a b. (if length p3 > 0
              then (if node_size a3 < ?m
                    then map_option (\<lambda>a'. (a', b3)) (dump_into p3 a3)
                    else map_option (\<lambda>b'. (a3, b')) (dump_into p3 b3))
              else Some (a3, b3)) = Some (a, b)
          \<and> ?m \<le> node_size a \<and> node_size a \<le> ?M \<and> ?m \<le> node_size b \<and> node_size b \<le> ?M"
  proof (cases "length p3 > 0")
    case False
    with s3 tot m2 mn show ?thesis by auto
  next
    case True
    show ?thesis
    proof (cases "node_size a3 < ?m")
      case a: True
      from dump_into_spec[OF s3(1,2)] obtain a' where
        d: "dump_into p3 a3 = Some a'" "grown a'" "nodes a' = nodes a3 @ map snd p3" by blast
      from d(2,3) s3(2) have sz': "node_size a' = node_size a3 + length p3"
        by (auto simp: grown_def)
      have "length p3 + node_size a3 = ?m" using s3(5,6,7) True a tot m2 by linarith
      with sz' tot m2 mn True a d(1) show ?thesis by auto
    next
      case a: False
      from dump_into_spec[OF s3(1,3)] obtain b' where
        d: "dump_into p3 b3 = Some b'" "grown b'" "nodes b' = nodes b3 @ map snd p3" by blast
      from d(2,3) s3(3) have sz': "node_size b' = node_size b3 + length p3"
        by (auto simp: grown_def)
      have "length p3 + node_size b3 = ?m" using s3(5,6,7) True a tot m2 by linarith
      with sz' tot m2 mn True a d(1) show ?thesis by auto
    qed
  qed
  then obtain a b where fin: "(if length p3 > 0
              then (if node_size a3 < ?m
                    then map_option (\<lambda>a'. (a', b3)) (dump_into p3 a3)
                    else map_option (\<lambda>b'. (a3, b')) (dump_into p3 b3))
              else Some (a3, b3)) = Some (a, b)"
     and chk: "?m \<le> node_size a \<and> node_size a \<le> ?M \<and> ?m \<le> node_size b \<and> node_size b \<le> ?M"
    by blast
  have r: "split_node S (Page cs pb) = Some (a, b, Page [] pb)"
    unfolding split_node_def using ps tc1 tc2 lp fin chk by (simp del: dump_into.simps)
  from split_node_partition[OF r] show ?thesis unfolding r by auto
qed

lemma quadratic_next_step_some:
  "\<exists>m1 t1 sd1. quadratic_next_step a b (m, Some (t, sd)) c = (m1, Some (t1, sd1))
      \<and> (t1 = t \<or> t1 = fst c)"
  by (simp add: quadratic_next_step_def Let_def)

lemma quadratic_next_fold_some:
  "\<exists>m' t' sd'. foldl (quadratic_next_step a b) (m, Some (t, sd)) cs = (m', Some (t', sd'))
      \<and> (t' = t \<or> t' \<in> fst ` set cs)"
proof (induction cs arbitrary: m t sd)
  case Nil
  show ?case by simp
next
  case (Cons c cs)
  from quadratic_next_step_some[of a b m t sd c]
  obtain m1 t1 sd1 where st: "quadratic_next_step a b (m, Some (t, sd)) c = (m1, Some (t1, sd1))"
    and t1: "t1 = t \<or> t1 = fst c" by blast
  from Cons.IH[of m1 t1 sd1] t1 show ?case by (auto simp: st)
qed

text \<open>
  \<open>pick_next\<close> of \<open>Quadratic\<close> answers a child as soon as the difference of the two
  increases is a number or infinite for the first child; where it is not a number for
  every child the answer is the null pointer.
\<close>

lemma quadratic_next_step_first:
  assumes "fabs (fsub (IncreaseToHold (getBound a) (getBound (snd c)))
                      (IncreaseToHold (getBound b) (getBound (snd c)))) \<noteq> NaN"
  shows "\<exists>m1 sd1. quadratic_next_step a b (Fin value_lowest, None) c = (m1, Some (fst c, sd1))"
proof -
  have "flt (Fin value_lowest) (fabs d)" if "fabs d \<noteq> NaN" for d
    using that value_lowest_lt by (cases d) auto
  from this[OF assms] show ?thesis by (simp add: quadratic_next_step_def Let_def)
qed

lemma quadratic_pick_next_ok:
  assumes "parent = c # cs"
    and "fabs (fsub (IncreaseToHold (getBound a) (getBound (snd c)))
                    (IncreaseToHold (getBound b) (getBound (snd c)))) \<noteq> NaN"
  shows "\<exists>t side. quadratic_pick_next parent a b = Some (t, side) \<and> t \<in> fst ` set parent"
proof -
  from quadratic_next_step_first[OF assms(2)]
  obtain m1 sd1 where st: "quadratic_next_step a b (Fin value_lowest, None) c = (m1, Some (fst c, sd1))"
    by blast
  from quadratic_next_fold_some[of a b m1 "fst c" sd1 cs]
  obtain m' t' sd' where f: "foldl (quadratic_next_step a b) (m1, Some (fst c, sd1)) cs = (m', Some (t', sd'))"
    and t': "t' = fst c \<or> t' \<in> fst ` set cs" by blast
  have "quadratic_pick_next parent a b = Some (t', sd')"
    by (simp add: quadratic_pick_next_def assms(1) st f)
  moreover have "t' \<in> fst ` set parent" using t' assms(1) by auto
  ultimately show ?thesis by blast
qed

lemma linear_pick_next_ok:
  assumes "parent \<noteq> []"
  shows "\<exists>t side. linear_pick_next parent a b = Some (t, side) \<and> t \<in> fst ` set parent"
  using assms by (cases parent) (auto simp: linear_pick_next_def Let_def)

lemma split_example_bound:
  "stretch_all empty_bound split_example = \<lparr>min_corner = [0, 0, 0], max_corner = [4, 4, 4]\<rparr>"
  using value_max_gt value_lowest_lt
  by (simp add: stretch_all_def split_example_def leaf_at_def point_box_def empty_bound_def
      reset_def stretch_def ndim_def numeral_3_eq_3)

lemma split_example_seeds:
  "linear_pick_seeds \<lparr>min_corner = [0, 0, 0], max_corner = [4, 4, 4]\<rparr> (enumerate 0 split_example)
     = Some (0, 4)"
  using value_max_gt value_lowest_lt
  by (simp add: linear_pick_seeds_def split_example_def enumerate_eq_zip upt_rec ndim_def
      linear_dim_step_def linear_child_step_def leaf_at_def point_box_def box_min_def box_max_def
      fround_simps Let_def)

text \<open>
  \<open>Linear<4,2>\<close> on the page of the five diagonal points: the seeds are the first and
  the last point, and \<open>pick_next\<close> of \<open>Linear\<close> always answers the first child.
\<close>

theorem split_node_postcondition_witness:
  "\<exists>as ba bs bb. split_node (Linear 4 2) (Page split_example (stretch_all empty_bound split_example))
        = Some (Page as ba, Page bs bb, Page [] (stretch_all empty_bound split_example))
     \<and> 2 \<le> length as \<and> length as \<le> 4 \<and> 2 \<le> length bs \<and> length bs \<le> 4
     \<and> mset as + mset bs = mset split_example"
proof -
  let ?S = "Linear 4 2 :: nat splitting"
  have 1: "1 < min_children ?S" by (simp add: Linear_def)
  have 2: "min_children ?S \<le> max_children ?S div 2" by (simp add: Linear_def)
  have 3: "length split_example = max_children ?S + 1" by (simp add: Linear_def split_example_def)
  have 4: "\<exists>sa sb. pick_seeds ?S (stretch_all empty_bound split_example) (enumerate 0 split_example) = Some (sa, sb)
            \<and> sa \<noteq> sb \<and> sa < length split_example \<and> sb < length split_example"
    by (simp add: Linear_def split_example_bound split_example_seeds) (simp add: split_example_def)
  have 5: "\<forall>parent a b. parent \<noteq> [] \<longrightarrow>
             (\<exists>t side. pick_next ?S parent a b = Some (t, side) \<and> t \<in> fst ` set parent)"
    using linear_pick_next_ok by (auto simp: Linear_def)
  from split_node_postcondition[OF 1 2 3 4 5] show ?thesis
    by (simp add: Linear_def)
qed


subsection \<open>The cached bounds of the pages\<close>

lemma map2_assoc:
  assumes "\<And>x y z. f (f x y) z = f x (f y z)"
  shows "map2 f (map2 f xs ys) zs = map2 f xs (map2 f ys zs)"
proof (induction xs arbitrary: ys zs)
  case Nil
  show ?case by simp
next
  case (Cons x xs)
  show ?case by (cases ys; cases zs) (simp_all add: Cons.IH assms)
qed

lemma map2_commute:
  assumes "\<And>x y. f x y = f y x"
  shows "map2 f xs ys = map2 f ys xs"
proof (induction xs arbitrary: ys)
  case Nil
  show ?case by simp
next
  case (Cons x xs)
  show ?case by (cases ys) (simp_all add: Cons.IH assms)
qed

lemma map2_idem:
  assumes "\<And>x. f x x = x"
  shows "map2 f xs xs = xs"
  by (induction xs) (simp_all add: assms)

lemma stretch_assoc: "stretch (stretch a b) c = stretch a (stretch b c)"
  by (simp add: stretch_def map2_assoc[of min] map2_assoc[of max] min.assoc max.assoc)

lemma stretch_commute: "stretch a b = stretch b a"
proof -
  have "map2 min (min_corner a) (min_corner b) = map2 min (min_corner b) (min_corner a)"
    by (rule map2_commute) (rule min.commute)
  moreover have "map2 max (max_corner a) (max_corner b) = map2 max (max_corner b) (max_corner a)"
    by (rule map2_commute) (rule max.commute)
  ultimately show ?thesis by (simp add: stretch_def)
qed

lemma stretch_left_commute: "stretch a (stretch b c) = stretch b (stretch a c)"
  by (metis stretch_assoc stretch_commute)

lemma stretch_idem: "stretch a a = a"
  by (simp add: stretch_def map2_idem)

lemma stretch_left_idem: "stretch a (stretch a b) = stretch a b"
  by (metis stretch_assoc stretch_idem)

lemmas stretch_ac = stretch_assoc stretch_commute stretch_left_commute stretch_idem stretch_left_idem

lemma stretch_all_Nil: "stretch_all e [] = e"
  by (simp add: stretch_all_def)

lemma stretch_all_init: "stretch e (stretch_all e cs) = stretch_all e cs"
proof (induction cs rule: rev_induct)
  case Nil
  show ?case by (simp add: stretch_all_Nil stretch_idem)
next
  case (snoc c cs)
  have "stretch e (stretch (stretch_all e cs) (getBound c))
        = stretch (stretch e (stretch_all e cs)) (getBound c)"
    by (simp only: stretch_assoc)
  then show ?case by (simp add: stretch_all_snoc snoc)
qed

lemma stretch_all_join: "stretch_all e (cs @ ds) = stretch (stretch_all e cs) (stretch_all e ds)"
proof (induction ds rule: rev_induct)
  case Nil
  have "stretch (stretch_all e cs) e = stretch e (stretch_all e cs)" by (rule stretch_commute)
  then show ?case by (simp add: stretch_all_Nil stretch_all_init)
next
  case (snoc d ds)
  have "stretch_all e (cs @ ds @ [d]) = stretch (stretch_all e (cs @ ds)) (getBound d)"
    by (simp add: stretch_all_def)
  also have "\<dots> = stretch (stretch (stretch_all e cs) (stretch_all e ds)) (getBound d)"
    by (simp add: snoc)
  also have "\<dots> = stretch (stretch_all e cs) (stretch_all e (ds @ [d]))"
    by (simp add: stretch_all_snoc stretch_assoc)
  finally show ?case by simp
qed

lemma stretch_all_single: "stretch_all e [c] = stretch e (getBound c)"
  by (simp add: stretch_all_def)

lemma stretch_all_Cons: "stretch_all e (c # cs) = stretch (getBound c) (stretch_all e cs)"
proof -
  have "stretch_all e (c # cs) = stretch (stretch e (getBound c)) (stretch_all e cs)"
    using stretch_all_join[of e "[c]" cs] by (simp add: stretch_all_single)
  also have "\<dots> = stretch (getBound c) (stretch e (stretch_all e cs))"
    by (metis stretch_assoc stretch_commute)
  finally show ?thesis by (simp add: stretch_all_init)
qed

lemma stretch_all_perm:
  assumes "mset cs = mset ds"
  shows "stretch_all e cs = stretch_all e ds"
  using assms
proof (induction cs arbitrary: ds)
  case Nil
  then show ?case by simp
next
  case (Cons c cs)
  then have "c \<in> set ds" by (metis list.set_intros(1) mset_eq_setD)
  then obtain ds1 ds2 where ds: "ds = ds1 @ c # ds2" by (meson split_list)
  with Cons.prems have "mset cs = mset (ds1 @ ds2)" by simp
  from Cons.IH[OF this] have "stretch_all e cs = stretch (stretch_all e ds1) (stretch_all e ds2)"
    by (simp add: stretch_all_join)
  then show ?case unfolding ds
    by (simp add: stretch_all_join stretch_all_Cons stretch_ac)
qed

lemma length_map2_same: "length xs = n \<Longrightarrow> length ys = n \<Longrightarrow> length (map2 f xs ys) = n"
  by simp

lemma dim_ok_stretch: "dim_ok a \<Longrightarrow> dim_ok b \<Longrightarrow> dim_ok (stretch a b)"
  by (simp add: dim_ok_def stretch_def)

lemma dim_ok_empty: "dim_ok empty_bound"
  by (simp add: dim_ok_def empty_bound_def reset_def)

lemma reset_dim_ok: "dim_ok b \<Longrightarrow> reset b = empty_bound"
  by (simp add: dim_ok_def empty_bound_def reset_def map_replicate_const)

lemma node_ok_dim: "node_ok n \<Longrightarrow> dim_ok (getBound n)"
proof (induction n)
  case (Leaf v)
  then show ?case by (simp add: node_ok_def)
next
  case (Page cs b)
  have "dim_ok (stretch_all empty_bound ds)" if "set ds \<subseteq> set cs" for ds
    using that
  proof (induction ds rule: rev_induct)
    case Nil
    show ?case by (simp add: stretch_all_Nil dim_ok_empty)
  next
    case (snoc d ds)
    then have "d \<in> set cs" by simp
    with Page have "dim_ok (getBound d)" by (auto simp: node_ok_def)
    with snoc show ?case by (simp add: stretch_all_snoc dim_ok_stretch)
  qed
  from this[of cs] Page.prems show ?case by (simp add: node_ok_def)
qed

lemma node_ok_Page:
  "node_ok (Page cs b) \<longleftrightarrow> b = stretch_all empty_bound cs \<and> (\<forall>c\<in>set cs. node_ok c)"
  by (auto simp: node_ok_def)

lemma node_ok_new: "node_ok new_node"
  by (simp add: new_node_eq node_ok_Page stretch_all_Nil)

lemma node_insert_ok:
  assumes "node_ok p" "node_ok c" "node_insert p c = Some p'"
  shows "node_ok p' \<and> \<not> isLeaf p' \<and> getBound p' = stretch (getBound p) (getBound c)"
  using assms by (cases p) (auto simp: node_ok_Page stretch_all_snoc)

lemma child_inside:
  assumes "c \<in> set cs"
  shows "stretch (stretch_all e cs) (getBound c) = stretch_all e cs"
proof -
  from assms obtain xs ys where cs: "cs = xs @ c # ys" by (meson split_list)
  show ?thesis unfolding cs
    by (simp add: stretch_all_join stretch_all_Cons stretch_ac)
qed

lemma stretch_all_hole:
  assumes "i < length cs"
  shows "stretch_all e cs = stretch (stretch_all e (take i cs @ drop (Suc i) cs)) (getBound (cs ! i))"
proof -
  have "mset cs = mset ((take i cs @ drop (Suc i) cs) @ [cs ! i])"
    using assms by (subst (1) id_take_nth_drop[OF assms]) simp
  from stretch_all_perm[OF this, of e] show ?thesis by (simp only: stretch_all_snoc)
qed

lemma descend_ok:
  assumes "descend bb n path0 = Some (best, path)" "node_ok n" "path_ok (getBound n) path0"
  shows "node_ok best \<and> \<not> isLeaf best \<and> path_ok (getBound best) path"
  using assms
proof (induction bb n path0 rule: descend.induct)
  case (1 bb v path0)
  then show ?case by (simp add: descend.simps)
next
  case (2 bb cs b path0)
  from "2.prems"(1) obtain i where i: "find_best_fit_in_node bb (Page cs b) = Some i" "i < length cs"
    by (auto simp: descend.simps split: option.splits if_splits)
  show ?case
  proof (cases "isLeaf (cs ! i)")
    case True
    with "2.prems" i show ?thesis by (auto simp: descend.simps)
  next
    case False
    let ?fr = "(b, take i cs, drop (Suc i) cs)"
    from "2.prems"(1) i False have d: "descend bb (cs ! i) (?fr # path0) = Some (best, path)"
      by (simp add: descend.simps)
    have ok: "b = stretch_all empty_bound cs" "\<forall>c\<in>set cs. node_ok c"
      using "2.prems"(2) by (simp_all add: node_ok_Page)
    have c: "node_ok (cs ! i)" using ok(2) i(2) by simp
    have sib: "\<forall>c\<in>set (take i cs @ drop (Suc i) cs). node_ok c"
      using ok(2) by (auto dest: in_set_takeD in_set_dropD)
    have "path_ok (getBound (cs ! i)) (?fr # path0)"
      using stretch_all_hole[OF i(2), of empty_bound] ok(1) sib "2.prems"(3) by simp
    from "2.IH"[OF i(1) i(2) False d c this] show ?thesis .
  qed
qed

lemma split_node_ok:
  assumes "split_node S (Page cs pb) = Some (a, b, e)" "node_ok (Page cs pb)"
  shows "node_ok a \<and> node_ok b \<and> \<not> isLeaf a \<and> \<not> isLeaf b \<and> stretch (getBound a) (getBound b) = pb"
proof -
  from split_node_partition[OF assms(1)] obtain as bs where
    ab: "a = Page as (stretch_all empty_bound as)" "b = Page bs (stretch_all empty_bound bs)"
    and m: "mset as + mset bs = mset cs" by blast
  from m have "mset (as @ bs) = mset cs" by simp
  from stretch_all_perm[OF this, of empty_bound] assms(2)
  have j: "stretch (stretch_all empty_bound as) (stretch_all empty_bound bs) = pb"
    by (simp add: stretch_all_join node_ok_Page)
  from m have "set as \<union> set bs = set cs" by (metis mset_append set_append set_mset_mset)
  with assms(2) have "\<forall>c\<in>set as \<union> set bs. node_ok c" by (simp add: node_ok_Page)
  with ab j show ?thesis by (simp add: node_ok_Page)
qed

lemma expand_tree_ok:
  assumes "expand_tree S cur path sb = Some r" "node_ok cur" "\<not> isLeaf cur"
      and "path_ok co path" "getBound cur = stretch co sb"
  shows "node_ok r \<and> \<not> isLeaf r"
  using assms
proof (induction path arbitrary: cur co)
  case Nil
  obtain cs cb where cur: "cur = Page cs cb" using Nil.prems(3) by (cases cur) auto
  show ?case
  proof (cases "node_size cur > max_children S")
    case False
    with Nil.prems show ?thesis by simp
  next
    case True
    with Nil.prems(1) cur obtain a b e where sp: "split_node S (Page cs cb) = Some (a, b, e)"
      and r: "r = Page [a, b] (stretch (stretch empty_bound (getBound a)) (getBound b))"
      by (auto simp: new_node_eq split: option.splits)
    from split_node_ok[OF sp] Nil.prems(2) cur have "node_ok a" "node_ok b" by auto
    then show ?thesis unfolding r by (simp add: node_ok_Page stretch_all_def)
  qed
next
  case (Cons fr path)
  obtain pb before after where fr: "fr = (pb, before, after)" by (cases fr) auto
  obtain cs cb where cur: "cur = Page cs cb" using Cons.prems(3) by (cases cur) auto
  from Cons.prems(4) fr have pb: "pb = stretch (stretch_all empty_bound (before @ after)) co"
    and sib: "\<forall>c\<in>set (before @ after). node_ok c" and up: "path_ok pb path" by auto
  have cb: "cb = stretch co sb" using Cons.prems(5) cur by simp
  show ?case
  proof (cases "node_size cur > max_children S")
    case False
    let ?p = "Page (before @ cur # after) (stretch pb sb)"
    from Cons.prems(1) fr False have ex: "expand_tree S ?p path sb = Some r" by simp
    have "stretch pb sb = stretch_all empty_bound (before @ cur # after)"
      unfolding pb by (simp add: stretch_all_join stretch_all_Cons cur cb stretch_ac)
    with sib Cons.prems(2) have ok: "node_ok ?p" by (auto simp: node_ok_Page)
    from Cons.IH[OF ex ok _ up] show ?thesis by simp
  next
    case True
    with Cons.prems(1) fr cur obtain a b e where sp: "split_node S (Page cs cb) = Some (a, b, e)"
      by (auto split: option.splits)
    let ?B = "stretch (stretch (stretch pb (getBound a)) (getBound b)) sb"
    let ?p = "Page (before @ after @ [a, b]) ?B"
    from Cons.prems(1) fr cur True sp have ex: "expand_tree S ?p path sb = Some r" by simp
    from split_node_ok[OF sp] Cons.prems(2) cur have ab: "node_ok a" "node_ok b"
      and j: "stretch (getBound a) (getBound b) = cb" by auto
    have h1: "stretch (stretch pb (getBound a)) (getBound b) = stretch pb cb"
      by (simp add: stretch_assoc j)
    have B0: "?B = stretch (stretch pb cb) sb" by (simp only: h1)
    have B: "?B = stretch pb sb" unfolding B0 unfolding pb cb by (simp add: stretch_ac)
    have "stretch_all empty_bound (before @ after @ [a, b])
          = stretch (stretch_all empty_bound (before @ after)) cb"
    proof -
      have "stretch_all empty_bound ((before @ after) @ [a, b])
            = stretch (stretch (stretch_all empty_bound (before @ after)) (getBound a)) (getBound b)"
        by (simp add: stretch_all_def)
      then show ?thesis by (simp add: stretch_assoc j)
    qed
    also have "\<dots> = ?B" unfolding B0 unfolding pb cb by (simp add: stretch_ac)
    finally have "?B = stretch_all empty_bound (before @ after @ [a, b])" by simp
    with sib ab have ok: "node_ok ?p" by (auto simp: node_ok_Page)
    from Cons.IH[OF ex ok _ up] B show ?thesis by simp
  qed
qed

lemma tree_insert_ok:
  assumes "tree_insert S start place = Some r" "node_ok place"
      and "case start of None \<Rightarrow> True | Some n \<Rightarrow> node_ok n"
  shows "node_ok r \<and> \<not> isLeaf r"
proof -
  from assms(1) obtain best path best' where
    f: "find_best_fit_in_tree start (getBound place) = Some (best, path)"
    and ins: "node_insert best place = Some best'"
    and ex: "expand_tree S best' path (getBound best') = Some r"
    by (auto simp: tree_insert_def split: option.splits)
  have b: "node_ok best \<and> \<not> isLeaf best \<and> path_ok (getBound best) path"
  proof (cases start)
    case None
    with f show ?thesis
      by (auto simp: find_best_fit_in_tree_def new_node_eq node_ok_Page stretch_all_Nil)
  next
    case (Some n)
    with f have "descend (getBound place) n [] = Some (best, path)"
      by (simp add: find_best_fit_in_tree_def)
    from descend_ok[OF this] assms(3) Some show ?thesis by simp
  qed
  from node_insert_ok[OF _ assms(2) ins] b have
    b': "node_ok best'" "\<not> isLeaf best'" "getBound best' = stretch (getBound best) (getBound place)"
    by auto
  have "getBound best' = stretch (getBound best) (getBound best')"
    unfolding b'(3) by (simp add: stretch_ac)
  from expand_tree_ok[OF ex b'(1,2) _ this] b show ?thesis by blast
qed

lemma restretch_ok:
  assumes "\<forall>c\<in>set cs. node_ok c" "dim_ok b"
  shows "node_restretch (Page cs b) = Some (Page cs (stretch_all empty_bound cs))
         \<and> node_ok (Page cs (stretch_all empty_bound cs))"
  using assms by (simp add: page_restretch_eq reset_dim_ok node_ok_Page)

lemma stretch_all_dim_ok:
  assumes "\<forall>c\<in>set cs. node_ok c"
  shows "dim_ok (stretch_all empty_bound cs)"
proof -
  from assms have "node_ok (Page cs (stretch_all empty_bound cs))" by (simp add: node_ok_Page)
  from node_ok_dim[OF this] show ?thesis by simp
qed

lemma condense_up_ok:
  assumes "condense_up S cur path orphans = Some (r, orphans')" "node_ok cur" "\<not> isLeaf cur"
      and "path_ok co path" "dim_ok co" "\<forall>c\<in>set orphans. node_ok c"
  shows "node_ok r \<and> \<not> isLeaf r \<and> (\<forall>c\<in>set orphans'. node_ok c)"
  using assms
proof (induction path arbitrary: cur co orphans)
  case Nil
  then show ?case by simp
next
  case (Cons fr path)
  obtain pb before after where fr: "fr = (pb, before, after)" by (cases fr) auto
  obtain cs cb where cur: "cur = Page cs cb" using Cons.prems(3) by (cases cur) auto
  from Cons.prems(4) fr have pb: "pb = stretch (stretch_all empty_bound (before @ after)) co"
    and sib: "\<forall>c\<in>set (before @ after). node_ok c" and up: "path_ok pb path" by auto
  have dpb: "dim_ok pb" unfolding pb
    using stretch_all_dim_ok[OF sib] Cons.prems(5) by (rule dim_ok_stretch)
  have kids: "\<forall>c\<in>set cs. node_ok c" using Cons.prems(2) cur by (simp add: node_ok_Page)
  show ?case
  proof (cases "node_size cur < min_children S")
    case True
    let ?p = "Page (before @ after) (stretch_all empty_bound (before @ after))"
    from restretch_ok[OF sib dpb] have rs: "node_restretch (Page (before @ after) pb) = Some ?p"
      and ok: "node_ok ?p" by auto
    from Cons.prems(1) fr True rs cur
    have c: "condense_up S ?p path (orphans @ cs) = Some (r, orphans')" by simp
    have o: "\<forall>c\<in>set (orphans @ cs). node_ok c" using Cons.prems(6) kids by auto
    from Cons.IH[OF c ok _ up dpb o] show ?thesis by simp
  next
    case False
    let ?cs = "before @ cur # after"
    let ?p = "Page ?cs (stretch_all empty_bound ?cs)"
    have all: "\<forall>c\<in>set ?cs. node_ok c" using sib Cons.prems(2) by auto
    from restretch_ok[OF all dpb] have rs: "node_restretch (Page ?cs pb) = Some ?p"
      and ok: "node_ok ?p" by auto
    from Cons.prems(1) fr False rs
    have c: "condense_up S ?p path orphans = Some (r, orphans')" by simp
    from Cons.IH[OF c ok _ up dpb Cons.prems(6)] show ?thesis by simp
  qed
qed

lemma reinsert_orphans_ok:
  assumes "reinsert_orphans S cur orphans = Some r" "node_ok cur" "\<not> isLeaf cur"
      and "\<forall>c\<in>set orphans. node_ok c"
  shows "node_ok r \<and> \<not> isLeaf r"
  using assms
proof (induction orphans arbitrary: cur)
  case Nil
  then show ?case by simp
next
  case (Cons orphan orphans)
  from Cons.prems(1) obtain cur' where ti: "tree_insert S (Some cur) orphan = Some cur'"
    and re: "reinsert_orphans S cur' orphans = Some r"
    by (auto split: option.splits)
  from tree_insert_ok[OF ti] Cons.prems have "node_ok cur'" "\<not> isLeaf cur'" by auto
  from Cons.IH[OF re this] Cons.prems(4) show ?case by simp
qed

lemma condense_tree_ok:
  assumes "condense_tree S cur path = Some r" "node_ok cur" "\<not> isLeaf cur"
      and "path_ok co path" "dim_ok co"
  shows "node_ok r \<and> \<not> isLeaf r"
proof -
  from assms(1) obtain c1 orphans c2 where
    up: "condense_up S cur path [] = Some (c1, orphans)"
    and re: "reinsert_orphans S c1 orphans = Some c2"
    and fin: "(case c2 of Leaf v \<Rightarrow> Some c2
               | Page cs b \<Rightarrow> (case cs of [front] \<Rightarrow> if \<not> isLeaf front then Some front else Some c2
                                | _ \<Rightarrow> Some c2)) = Some r"
    by (auto simp: condense_tree_def split: option.splits)
  from condense_up_ok[OF up assms(2,3,4,5)] have c1: "node_ok c1" "\<not> isLeaf c1"
    "\<forall>c\<in>set orphans. node_ok c" by auto
  from reinsert_orphans_ok[OF re c1] have c2: "node_ok c2" "\<not> isLeaf c2" by auto
  then obtain cs b where p: "c2 = Page cs b" by (cases c2) auto
  show ?thesis
  proof (cases "\<exists>front. cs = [front] \<and> \<not> isLeaf front")
    case True
    then obtain front where f: "cs = [front]" "\<not> isLeaf front" by blast
    with fin p have "r = front" by simp
    with c2(1) p f show ?thesis by (simp add: node_ok_Page)
  next
    case False
    with fin p have "r = c2" by (auto split: list.splits if_splits)
    with c2 show ?thesis by simp
  qed
qed

lemma find_best_fit_in_tree_ok:
  assumes "find_best_fit_in_tree start bb = Some (best, path)"
      and "case start of None \<Rightarrow> True | Some n \<Rightarrow> node_ok n"
  shows "node_ok best \<and> \<not> isLeaf best \<and> path_ok (getBound best) path"
proof (cases start)
  case None
  with assms(1) show ?thesis
    by (auto simp: find_best_fit_in_tree_def new_node_eq node_ok_Page stretch_all_Nil)
next
  case (Some n)
  with assms(1) have "descend bb n [] = Some (best, path)"
    by (simp add: find_best_fit_in_tree_def)
  from descend_ok[OF this] assms(2) Some show ?thesis by simp
qed

lemma tree_remove_ok:
  assumes "tree_remove S start remove_node = Some r"
      and "case start of None \<Rightarrow> True | Some n \<Rightarrow> node_ok n"
  shows "node_ok r \<and> \<not> isLeaf r"
proof -
  from assms(1) obtain best path where
    f: "find_best_fit_in_tree start (getBound remove_node) = Some (best, path)"
    by (auto simp: tree_remove_def split: option.splits)
  from find_best_fit_in_tree_ok[OF f assms(2)] have
    b: "node_ok best" "\<not> isLeaf best" "path_ok (getBound best) path" by auto
  then obtain cs bb where p: "best = Page cs bb" by (cases best) auto
  let ?cs = "filter (\<lambda>child. child \<noteq> remove_node) cs"
  have kids: "\<forall>c\<in>set ?cs. node_ok c" using b(1) p by (simp add: node_ok_Page)
  have d: "dim_ok bb" using node_ok_dim[OF b(1)] p by simp
  from restretch_ok[OF kids d] have rs: "node_restretch (Page ?cs bb) = Some (Page ?cs (stretch_all empty_bound ?cs))"
    and ok: "node_ok (Page ?cs (stretch_all empty_bound ?cs))" by auto
  from assms(1) f p rs have c: "condense_tree S (Page ?cs (stretch_all empty_bound ?cs)) path = Some r"
    by (auto simp: tree_remove_def split: if_splits)
  from condense_tree_ok[OF c ok _ b(3)] d p show ?thesis by simp
qed

text \<open>
  Claim C4. In a tree in which the cached bound of every page is the union of the
  bounds of its children, \<open>insert\<close> of a value and \<open>remove\<close> of a value lead to a
  tree of which the same holds, whenever they return. (They do not return where the
  source runs into a failed assertion, as \<open>insert\<close> does on a root page that a
  \<open>remove\<close> has left without children.)
\<close>

theorem mutation_keeps_cached_bounds:
  assumes "root_ok t" "dim_ok (fst v)"
  shows "(RTree_insert S v t = Some t' \<longrightarrow> root_ok t')
         \<and> (RTree_remove S v t = Some t' \<longrightarrow> root_ok t')"
proof -
  have start: "case root_node_ptr t of None \<Rightarrow> True | Some n \<Rightarrow> node_ok n"
    using assms(1) by (auto simp: root_ok_def node_ok_def split: option.splits)
  have leaf: "node_ok (Leaf v)" using assms(2) by (simp add: node_ok_def)
  have "root_ok t'" if "RTree_insert S v t = Some t'"
  proof -
    from that obtain r where r: "tree_insert S (root_node_ptr t) (Leaf v) = Some r"
      "root_node_ptr t' = Some r" by (auto simp: RTree_insert_def)
    from tree_insert_ok[OF r(1) leaf start] r(2) show ?thesis
      by (simp add: root_ok_def node_ok_def)
  qed
  moreover have "root_ok t'" if "RTree_remove S v t = Some t'"
  proof -
    from that obtain r where r: "tree_remove S (root_node_ptr t) (Leaf v) = Some r"
      "root_node_ptr t' = Some r" by (auto simp: RTree_remove_def)
    from tree_remove_ok[OF r(1) start] r(2) show ?thesis
      by (simp add: root_ok_def node_ok_def)
  qed
  ultimately show ?thesis by blast
qed

lemma insert_first_value:
  "0 < max_children S \<Longrightarrow> RTree_insert S v RTree_new
     = Some \<lparr>root_node_ptr = Some (Page [Leaf v] (stretch empty_bound (fst v)))\<rparr>"
  by (simp add: RTree_insert_def RTree_new_def tree_insert_def find_best_fit_in_tree_def new_node_eq)

lemma remove_only_value:
  "RTree_remove S v \<lparr>root_node_ptr = Some (Page [Leaf v] b)\<rparr>
     = Some \<lparr>root_node_ptr = Some (Page [] (reset b))\<rparr>"
  by (simp add: RTree_remove_def tree_remove_def find_best_fit_in_tree_def descend.simps
      find_best_fit_in_node_def page_restretch_def condense_tree_def)

text \<open>
  A value is inserted into the default-constructed tree and removed again: both calls
  return, and the invariant holds after each.
\<close>

theorem mutation_keeps_cached_bounds_witness:
  "root_ok (RTree_new :: nat rtree) \<and> dim_ok (point_box [1, 2, 3])
   \<and> (\<exists>t1 t2. RTree_insert (Quadratic 10 4) (point_box [1, 2, 3], 7::nat) RTree_new = Some t1
          \<and> root_ok t1
          \<and> RTree_remove (Quadratic 10 4) (point_box [1, 2, 3], 7) t1 = Some t2
          \<and> root_ok t2)"
proof -
  let ?S = "Quadratic 10 4 :: nat splitting" and ?v = "(point_box [1, 2, 3], 7::nat)"
  let ?t1 = "\<lparr>root_node_ptr = Some (Page [Leaf ?v] (stretch empty_bound (fst ?v)))\<rparr>"
  let ?t2 = "\<lparr>root_node_ptr = Some (Page [] (reset (stretch empty_bound (fst ?v)) :: box) :: nat node)\<rparr>"
  have 0: "root_ok (RTree_new :: nat rtree)" by (simp add: root_ok_def RTree_new_def)
  have d: "dim_ok (fst ?v)" by (simp add: dim_ok_def point_box_def ndim_def)
  have i: "RTree_insert ?S ?v RTree_new = Some ?t1" by (rule insert_first_value) (simp add: Quadratic_def)
  have r: "RTree_remove ?S ?v ?t1 = Some ?t2" by (rule remove_only_value)
  from mutation_keeps_cached_bounds[OF 0 d, of ?S ?t1] i have 1: "root_ok ?t1" by blast
  from mutation_keeps_cached_bounds[OF 1 d, of ?S ?t2] r have 2: "root_ok ?t2" by blast
  from 0 d i r 1 2 show ?thesis by auto
qed

subsection \<open>The nearest-neighbour query\<close>

lemma ms_emplace_Nil: "ms_emplace x [] = [x]"
  by (simp add: ms_emplace_def)

lemma ms_emplace_Cons:
  "ms_emplace x (y # ys) = (if fst x < fst y then x # y # ys else y # ms_emplace x ys)"
  by (simp add: ms_emplace_def)

lemma mset_ms_emplace: "mset (ms_emplace x xs) = add_mset x (mset xs)"
  by (induction xs) (simp_all add: ms_emplace_Nil ms_emplace_Cons)

lemma set_ms_emplace: "set (ms_emplace x xs) = insert x (set xs)"
  using mset_ms_emplace[of x xs] by (metis set_mset_add_mset_insert set_mset_mset)

lemma length_ms_emplace: "length (ms_emplace x xs) = Suc (length xs)"
  using mset_ms_emplace[of x xs] by (metis size_add_mset size_mset)

lemma sorted_ms_emplace:
  "sorted (map fst xs) \<Longrightarrow> sorted (map fst (ms_emplace x xs))"
proof (induction xs)
  case Nil
  show ?case by (simp add: ms_emplace_Nil)
next
  case (Cons y ys)
  show ?case
  proof (cases "fst x < fst y")
    case True
    with Cons.prems show ?thesis by (auto simp: ms_emplace_Cons)
  next
    case False
    with Cons show ?thesis by (auto simp: ms_emplace_Cons set_ms_emplace)
  qed
qed

lemma els_Nil: "els [] = {#}"
  by (simp add: els_def)

lemma els_Cons: "els (e # es) = leaves (snd e) + els es"
  by (simp add: els_def)

lemma els_append: "els (xs @ ys) = els xs + els ys"
  by (simp add: els_def)

lemma els_ms_emplace: "els (ms_emplace x xs) = leaves (snd x) + els xs"
  unfolding els_def by (rule sum_list_ms_emplace)

lemma els_enqueue_children:
  "els (enqueue_children pred cn cs) = els cn + sum_list (map leaves cs)"
  unfolding enqueue_children_def
  by (induction cs arbitrary: cn) (simp_all add: els_ms_emplace add.assoc add.commute add.left_commute)

lemma set_enqueue_children:
  "set (enqueue_children pred cn cs)
     = set cn \<union> (\<lambda>child. (distance_apply pred (getBound child) (isLeaf child), child)) ` set cs"
  unfolding enqueue_children_def
  by (induction cs arbitrary: cn) (auto simp: set_ms_emplace)

lemma leaf_ok_leaves: "leaf_ok q e \<Longrightarrow> \<exists>v. leaves (snd e) = {#v#} \<and> fst e = Nearest (fst v) q"
  by (auto simp: leaf_ok_def)

lemma size_els_leaf: "\<forall>e\<in>set es. leaf_ok q e \<Longrightarrow> size (els es) = length es"
  by (induction es) (auto simp: els_Nil els_Cons dest: leaf_ok_leaves)

text \<open>The distance to a box is a sum over the dimensions; a box inside another is not nearer.\<close>

lemma foldl_add_sum:
  "foldl (\<lambda>s i. s + g i) (s0 :: real) xs = s0 + sum_list (map g xs)"
  by (induction xs arbitrary: s0) simp_all

lemma Nearest_sum:
  "Nearest a q = sum_list (map (\<lambda>i. (max (max 0 (min_corner q ! i - max_corner a ! i))
                                         (max 0 (min_corner a ! i - max_corner q ! i)))\<^sup>2)
                            [0 ..< length (min_corner a)])"
  by (simp add: Nearest_def Let_def foldl_add_sum)

lemma Nearest_mono:
  assumes "dim_ok a" "dim_ok b" "stretch a b = a"
  shows "Nearest a q \<le> Nearest b q"
proof -
  have la: "length (min_corner a) = ndim" "length (max_corner a) = ndim"
    and lb: "length (min_corner b) = ndim" "length (max_corner b) = ndim"
    using assms by (simp_all add: dim_ok_def)
  have mn: "map2 min (min_corner a) (min_corner b) = min_corner a"
    and mx: "map2 max (max_corner a) (max_corner b) = max_corner a"
    using assms(3) by (simp_all add: stretch_def) (metis box.select_convs box.surjective box.update_convs)+
  have le: "min_corner a ! i \<le> min_corner b ! i \<and> max_corner b ! i \<le> max_corner a ! i" if "i < ndim" for i
  proof -
    have "map2 min (min_corner a) (min_corner b) ! i = min (min_corner a ! i) (min_corner b ! i)"
      using that la lb by simp
    moreover have "map2 max (max_corner a) (max_corner b) ! i = max (max_corner a ! i) (max_corner b ! i)"
      using that la lb by simp
    ultimately show ?thesis unfolding mn mx by linarith
  qed
  have "sum_list (map (\<lambda>i. (max (max 0 (min_corner q ! i - max_corner a ! i))
                               (max 0 (min_corner a ! i - max_corner q ! i)))\<^sup>2) [0 ..< ndim])
      \<le> sum_list (map (\<lambda>i. (max (max 0 (min_corner q ! i - max_corner b ! i))
                               (max 0 (min_corner b ! i - max_corner q ! i)))\<^sup>2) [0 ..< ndim])"
  proof (rule sum_list_mono)
    fix i assume "i \<in> set [0 ..< ndim]"
    then have "i < ndim" by simp
    from le[OF this] show "(max (max 0 (min_corner q ! i - max_corner a ! i))
                               (max 0 (min_corner a ! i - max_corner q ! i)))\<^sup>2
        \<le> (max (max 0 (min_corner q ! i - max_corner b ! i))
                               (max 0 (min_corner b ! i - max_corner q ! i)))\<^sup>2"
      by (intro power_mono) auto
  qed
  then show ?thesis by (simp add: Nearest_sum la lb)
qed

lemma leaves_in_child:
  "u \<in># sum_list (map leaves cs) \<Longrightarrow> \<exists>c\<in>set cs. u \<in># leaves c"
  by (induction cs) auto

lemma leaves_of_child:
  "c \<in> set cs \<Longrightarrow> u \<in># leaves c \<Longrightarrow> u \<in># sum_list (map leaves cs)"
  by (induction cs) auto

lemma Nearest_leaf_bound:
  "node_ok n \<Longrightarrow> u \<in># leaves n \<Longrightarrow> Nearest (getBound n) q \<le> Nearest (fst u) q"
proof (induction n)
  case (Leaf v)
  then show ?case by simp
next
  case (Page cs b)
  from Page.prems(2) obtain c where c: "c \<in> set cs" "u \<in># leaves c"
    using leaves_in_child by fastforce
  from Page.prems(1) have b: "b = stretch_all empty_bound cs" and ok: "\<forall>c\<in>set cs. node_ok c"
    by (simp_all add: node_ok_Page)
  have "Nearest b q \<le> Nearest (getBound c) q"
  proof (rule Nearest_mono)
    show "dim_ok b" using node_ok_dim[OF Page.prems(1)] by simp
    show "dim_ok (getBound c)" using ok c node_ok_dim by blast
    show "stretch b (getBound c) = b" unfolding b using child_inside[OF c(1)] .
  qed
  also have "\<dots> \<le> Nearest (fst u) q" using Page.IH[OF c(1) _ c(2)] ok c by blast
  finally show ?case by simp
qed


text \<open>
  One step of the loop hands the rest of the search a state from which the values
  in \<open>D\<close> are missing; they are not nearer than the \<open>K\<close> leaves held at that moment.
\<close>

lemma nearest_post_step:
  assumes post: "nearest_post q K cands' leafs' res"
    and split: "els (tms_data leafs) + els cands = els (tms_data leafs') + els cands' + D"
    and full: "D \<noteq> {#} \<Longrightarrow> length (tms_data leafs') = K"
    and far: "\<And>u. u \<in># D \<Longrightarrow> fst (last (tms_data leafs')) \<le> Nearest (fst u) q"
    and keep: "length (tms_data leafs) = K \<Longrightarrow>
                 length (tms_data leafs') = K \<and> fst (last (tms_data leafs')) \<le> fst (last (tms_data leafs))"
    and ok: "\<forall>e\<in>set (tms_data leafs'). leaf_ok q e"
  shows "nearest_post q K cands leafs res"
proof -
  let ?A = "els (tms_data leafs) + els cands" and ?A' = "els (tms_data leafs') + els cands'"
  let ?R = "els (tms_data res)"
  from post have p1: "\<forall>e\<in>set (tms_data res). leaf_ok q e" and p2: "sorted (map fst (tms_data res))"
    and p3: "length (tms_data res) = min K (size ?A')" and p4: "?R \<subseteq># ?A'"
    and p5: "\<forall>u\<in>#(?A' - ?R). \<forall>e\<in>set (tms_data res). fst e \<le> Nearest (fst u) q"
    and p6: "length (tms_data leafs') = K \<longrightarrow> (\<forall>e\<in>set (tms_data res). fst e \<le> fst (last (tms_data leafs')))"
    by (simp_all add: nearest_post_def)
  have A: "?A = ?A' + D" by (rule split)
  have sz: "size (els (tms_data leafs')) = length (tms_data leafs')" by (rule size_els_leaf[OF ok])
  have c3: "length (tms_data res) = min K (size ?A)"
  proof (cases "D = {#}")
    case True
    with A p3 show ?thesis by simp
  next
    case False
    from full[OF False] sz have "K \<le> size ?A'" by simp
    moreover from this A have "K \<le> size ?A" by simp
    ultimately show ?thesis using p3 by simp
  qed
  have c4: "?R \<subseteq># ?A" unfolding A using p4 by (simp add: subset_mset.add_increasing2)
  have diff: "?A - ?R = (?A' - ?R) + D" unfolding A using p4
    by (simp add: multiset_eq_iff subseteq_mset_def)
  have c5: "\<forall>u\<in>#(?A - ?R). \<forall>e\<in>set (tms_data res). fst e \<le> Nearest (fst u) q"
  proof (intro ballI)
    fix u e assume u: "u \<in># ?A - ?R" and e: "e \<in> set (tms_data res)"
    from u diff have "u \<in># ?A' - ?R \<or> u \<in># D" by simp
    then show "fst e \<le> Nearest (fst u) q"
    proof
      assume "u \<in># ?A' - ?R"
      with p5 e show ?thesis by blast
    next
      assume uD: "u \<in># D"
      then have "D \<noteq> {#}" by auto
      from full[OF this] p6 e have "fst e \<le> fst (last (tms_data leafs'))" by blast
      with far[OF uD] show ?thesis by simp
    qed
  qed
  have c6: "length (tms_data leafs) = K \<longrightarrow> (\<forall>e\<in>set (tms_data res). fst e \<le> fst (last (tms_data leafs)))"
  proof (intro impI ballI)
    fix e assume K: "length (tms_data leafs) = K" and e: "e \<in> set (tms_data res)"
    from keep[OF K] p6 e have "fst e \<le> fst (last (tms_data leafs'))" by blast
    with keep[OF K] show "fst e \<le> fst (last (tms_data leafs))" by simp
  qed
  show ?thesis unfolding nearest_post_def using p1 p2 c3 c4 c5 c6 by blast
qed

lemma sorted_le_last:
  "sorted (map fst xs) \<Longrightarrow> e \<in> set xs \<Longrightarrow> fst e \<le> fst (last xs)"
proof (induction xs)
  case Nil
  then show ?case by simp
next
  case (Cons x xs)
  then show ?case by (cases xs) auto
qed

lemma tms_emplace_room:
  assumes "length (tms_data s) < tms_count s"
  shows "tms_data (tms_emplace x s) = ms_emplace x (tms_data s)"
    and "tms_count (tms_emplace x s) = tms_count s"
  using assms by (simp_all add: tms_emplace_def tms_truncate_def length_ms_emplace)

lemma tms_emplace_full:
  assumes "length (tms_data s) = tms_count s"
  shows "tms_data (tms_emplace x s) = butlast (ms_emplace x (tms_data s))"
    and "tms_count (tms_emplace x s) = tms_count s"
proof -
  have "take (length (tms_data s)) (ms_emplace x (tms_data s)) = butlast (ms_emplace x (tms_data s))"
    by (simp add: butlast_conv_take length_ms_emplace)
  then show "tms_data (tms_emplace x s) = butlast (ms_emplace x (tms_data s))"
    using assms by (simp add: tms_emplace_def tms_truncate_def length_ms_emplace)
  show "tms_count (tms_emplace x s) = tms_count s"
    by (simp add: tms_emplace_def tms_truncate_def)
qed


lemma nearest_loop_correct:
  assumes "nearest_inv q K cands leafs thr" "1 \<le> K" "dp_count pred = K" "dp_bound pred = q"
  shows "\<exists>res. nearest_loop pred cands leafs thr = Some res \<and> nearest_post q K cands leafs res"
  using assms
proof (induction pred cands leafs thr rule: nearest_loop.induct)
  case (1 pred leafs thr)
  from "1.prems"(1) have ok: "\<forall>e\<in>set (tms_data leafs). leaf_ok q e"
    and srt: "sorted (map fst (tms_data leafs))" and len: "length (tms_data leafs) \<le> K"
    by (simp_all add: nearest_inv_def)
  have "nearest_post q K [] leafs leafs"
    unfolding nearest_post_def using ok srt len sorted_le_last[OF srt]
    by (simp add: els_Nil size_els_leaf[OF ok])
  then show ?case by simp
next
  case (2 pred front rest leafs thr)
  let ?data = "tms_data leafs"
  from "2.prems"(1) have cok: "\<forall>e\<in>set (front # rest). cand_ok q e"
    and ok: "\<forall>e\<in>set ?data. leaf_ok q e"
    and srt: "sorted (map fst ?data)" and len: "length ?data \<le> K"
    and cnt: "tms_count leafs = K"
    and thr: "thr = (if length ?data = K then fst (last ?data) else value_max)"
    by (simp_all add: nearest_inv_def)
  from cok have fok: "cand_ok q front" and rok: "\<forall>e\<in>set rest. cand_ok q e" by simp_all
  note K = "2.prems"(2) and pc = "2.prems"(3) and pq = "2.prems"(4)
  show ?case
  proof (cases "fst front \<le> thr")
    case False
    have inv': "nearest_inv q K rest leafs thr"
      using "2.prems"(1) by (simp add: nearest_inv_def)
    from "2.IH"(4)[OF False inv' K pc pq] obtain res
      where res: "nearest_loop pred rest leafs thr = Some res" and post: "nearest_post q K rest leafs res"
      by blast
    have far0: "fst front \<le> Nearest (fst u) q" if "u \<in># leaves (snd front)" for u
      using fok Nearest_leaf_bound[OF _ that, of q] by (simp add: cand_ok_def)
    have full: "length ?data = K" if "leaves (snd front) \<noteq> {#}"
    proof (rule ccontr)
      assume "length ?data \<noteq> K"
      with thr have t: "thr = value_max" by simp
      from that obtain u where u: "u \<in># leaves (snd front)" by (meson multiset_nonemptyE)
      from fok u have "Nearest (fst u) q \<le> value_max" by (simp add: cand_ok_def)
      with far0[OF u] t False show False by simp
    qed
    have "nearest_post q K (front # rest) leafs res"
    proof (rule nearest_post_step[OF post, where D = "leaves (snd front)"])
      show "els ?data + els (front # rest) = els ?data + els rest + leaves (snd front)"
        by (simp add: els_Cons)
      show "length ?data = K" if "leaves (snd front) \<noteq> {#}" using full[OF that] .
      show "fst (last ?data) \<le> Nearest (fst u) q" if "u \<in># leaves (snd front)" for u
      proof -
        from that have "leaves (snd front) \<noteq> {#}" by auto
        from full[OF this] thr have "thr = fst (last ?data)" by simp
        with False far0[OF that] show ?thesis by simp
      qed
      show "length ?data = K \<and> fst (last ?data) \<le> fst (last ?data)" if "length ?data = K"
        using that by simp
      show "\<forall>e\<in>set ?data. leaf_ok q e" by (rule ok)
    qed
    with res False show ?thesis by simp
  next
    case True
    show ?thesis
    proof (cases "snd front")
      case (Page cs b)
      from fok Page have nok: "node_ok (Page cs b)"
        and bnd: "\<forall>u\<in>#leaves (Page cs b). Nearest (fst u) q \<le> value_max"
        by (simp_all add: cand_ok_def)
      from nok have cs_ok: "\<forall>c\<in>set cs. node_ok c" by (simp add: node_ok_Page)
      have "cand_ok q e" if "e \<in> set (enqueue_children pred rest cs)" for e
      proof -
        from that consider "e \<in> set rest"
          | c where "c \<in> set cs" "e = (distance_apply pred (getBound c) (isLeaf c), c)"
          by (auto simp: set_enqueue_children)
        then show ?thesis
        proof cases
          case 1
          with rok show ?thesis by blast
        next
          case 2
          have "\<forall>u\<in>#leaves c. Nearest (fst u) q \<le> value_max"
            using bnd leaves_of_child[OF 2(1)] by (metis leaves.simps(2))
          with 2 cs_ok show ?thesis by (simp add: cand_ok_def distance_apply_def pq)
        qed
      qed
      then have inv': "nearest_inv q K (enqueue_children pred rest cs) leafs thr"
        using "2.prems"(1) by (simp add: nearest_inv_def)
      from "2.IH"(3)[OF True Page inv' K pc pq] obtain res
        where res: "nearest_loop pred (enqueue_children pred rest cs) leafs thr = Some res"
          and post: "nearest_post q K (enqueue_children pred rest cs) leafs res"
        by blast
      have "nearest_post q K (front # rest) leafs res"
      proof (rule nearest_post_step[OF post, where D = "{#}"])
        show "els ?data + els (front # rest) = els ?data + els (enqueue_children pred rest cs) + {#}"
          by (simp add: els_Cons els_enqueue_children Page)
        show "\<forall>e\<in>set ?data. leaf_ok q e" by (rule ok)
      qed simp_all
      with res True Page show ?thesis by simp
    next
      case (Leaf v)
      from fok Leaf have lf: "leaf_ok q front" by (simp add: cand_ok_def leaf_ok_def)
      let ?ys = "ms_emplace front ?data"
      let ?leafs' = "tms_emplace front leafs"
      let ?data' = "tms_data ?leafs'"
      have ys_ok: "\<forall>e\<in>set ?ys. leaf_ok q e" using ok lf by (simp add: set_ms_emplace)
      have ys_srt: "sorted (map fst ?ys)" by (rule sorted_ms_emplace[OF srt])
      have ys_ne: "?ys \<noteq> []" using length_ms_emplace[of front ?data] by auto
      have cnt': "tms_count ?leafs' = K" using cnt by (simp add: tms_emplace_def tms_truncate_def)
      show ?thesis
      proof (cases "length ?data = K")
        case False
        with len cnt have room: "length ?data < tms_count leafs" by simp
        have d': "?data' = ?ys" by (rule tms_emplace_room(1)[OF room])
        have len': "length ?data' = Suc (length ?data)" by (simp add: d' length_ms_emplace)
        have ne: "?data' \<noteq> []" by (simp add: d' ys_ne)
        let ?thr' = "if K \<le> length ?data' then fst (last ?data') else thr"
        have inv': "nearest_inv q K rest ?leafs' ?thr'"
          unfolding nearest_inv_def using rok ys_ok ys_srt cnt' len' len False thr
          by (auto simp: d')
        have step: "nearest_loop pred (front # rest) leafs thr = nearest_loop pred rest ?leafs' ?thr'"
          using True Leaf ne by (simp add: pc)
        have "\<exists>res. nearest_loop pred rest ?leafs' ?thr' = Some res \<and> nearest_post q K rest ?leafs' res"
        proof (cases "K \<le> length ?data'")
          case a: True
          then have "dp_count pred \<le> length ?data'" by (simp add: pc)
          from "2.IH"(1)[OF True Leaf this ne _ K pc pq] inv' a show ?thesis by simp
        next
          case b: False
          then have "\<not> dp_count pred \<le> length ?data'" by (simp add: pc)
          from "2.IH"(2)[OF True Leaf this _ K pc pq] inv' b show ?thesis by simp
        qed
        then obtain res where res: "nearest_loop pred rest ?leafs' ?thr' = Some res"
          and post: "nearest_post q K rest ?leafs' res" by blast
        have "nearest_post q K (front # rest) leafs res"
        proof (rule nearest_post_step[OF post, where D = "{#}"])
          show "els ?data + els (front # rest) = els ?data' + els rest + {#}"
            by (simp add: els_Cons d' els_ms_emplace Leaf)
          show "\<forall>e\<in>set ?data'. leaf_ok q e" using ys_ok by (simp add: d')
          show "length ?data' = K \<and> fst (last ?data') \<le> fst (last ?data)" if "length ?data = K"
            using that False by simp
        qed simp_all
        with res step show ?thesis by simp
      next
        case full: True
        with cnt have "length ?data = tms_count leafs" by simp
        from tms_emplace_full(1)[OF this] have d': "?data' = butlast ?ys" .
        have len': "length ?data' = K" by (simp add: d' length_ms_emplace full)
        have ne: "?data' \<noteq> []" using len' K by auto
        have sub: "set ?data' \<subseteq> set ?ys" unfolding d' by (meson in_set_butlastD subsetI)
        have srt': "sorted (map fst ?data')"
          unfolding d' using ys_srt by (simp add: map_butlast sorted_butlast ys_ne)
        let ?thr' = "fst (last ?data')"
        have inv': "nearest_inv q K rest ?leafs' ?thr'"
          unfolding nearest_inv_def using rok ys_ok sub srt' cnt' len' by auto
        have step: "nearest_loop pred (front # rest) leafs thr = nearest_loop pred rest ?leafs' ?thr'"
          using True Leaf ne len' by (simp add: pc)
        have "dp_count pred \<le> length ?data'" by (simp add: pc len')
        from "2.IH"(1)[OF True Leaf this ne inv' K pc pq] obtain res
          where res: "nearest_loop pred rest ?leafs' ?thr' = Some res"
            and post: "nearest_post q K rest ?leafs' res" by blast
        have ys: "?ys = ?data' @ [last ?ys]" unfolding d' using ys_ne by simp
        have last_in: "last ?data' \<in> set ?ys" using ne sub last_in_set by blast
        have "nearest_post q K (front # rest) leafs res"
        proof (rule nearest_post_step[OF post, where D = "leaves (snd (last ?ys))"])
          have "els ?data + els (front # rest) = els ?ys + els rest"
            by (simp add: els_Cons els_ms_emplace)
          also have "els ?ys = els ?data' + leaves (snd (last ?ys))"
            by (subst ys) (simp add: els_append els_Cons els_Nil)
          finally show "els ?data + els (front # rest) = els ?data' + els rest + leaves (snd (last ?ys))"
            by simp
          show "length ?data' = K" if "leaves (snd (last ?ys)) \<noteq> {#}" by (rule len')
          show "fst (last ?data') \<le> Nearest (fst u) q" if "u \<in># leaves (snd (last ?ys))" for u
          proof -
            have "leaf_ok q (last ?ys)" using ys_ok ys_ne last_in_set by blast
            with that have "fst (last ?ys) = Nearest (fst u) q" by (auto simp: leaf_ok_def)
            moreover have "fst (last ?data') \<le> fst (last ?ys)"
              by (rule sorted_le_last[OF ys_srt last_in])
            ultimately show ?thesis by simp
          qed
          show "length ?data' = K \<and> fst (last ?data') \<le> fst (last ?data)" if "length ?data = K"
          proof -
            from last_in have "last ?data' = front \<or> last ?data' \<in> set ?data"
              by (simp add: set_ms_emplace)
            then have "fst (last ?data') \<le> fst (last ?data)"
            proof
              assume "last ?data' = front"
              with True thr full show ?thesis by simp
            next
              assume "last ?data' \<in> set ?data"
              from sorted_le_last[OF srt this] show ?thesis .
            qed
            with len' show ?thesis by simp
          qed
          show "\<forall>e\<in>set ?data'. leaf_ok q e" using ys_ok sub by blast
        qed
        with res step show ?thesis by simp
      qed
    qed
  qed
qed


lemma values_of_leafs:
  assumes "\<forall>e\<in>set es. leaf_ok q e"
  shows "\<exists>vs. values_of es = Some vs \<and> mset vs = els es
              \<and> map (\<lambda>v. Nearest (fst v) q) vs = map fst es"
  using assms
proof (induction es)
  case Nil
  show ?case by (simp add: els_Nil)
next
  case (Cons e es)
  then obtain vs where vs: "values_of es = Some vs" "mset vs = els es"
      "map (\<lambda>v. Nearest (fst v) q) vs = map fst es" by auto
  from Cons.prems obtain v where v: "snd e = Leaf v" "fst e = Nearest (fst v) q"
    by (auto simp: leaf_ok_def)
  show ?case using vs v by (simp add: els_Cons)
qed

text \<open>
  The query for the \<open>K\<close> nearest values, \<open>K\<close> at least one, on a tree whose cached
  bounds are right and whose values lie at a representable distance from the query
  box: it returns, it returns \<open>min K |S|\<close> of the stored values in the order of their
  distance, and no value it leaves out is nearer than one it returns.
\<close>

lemma nearest_query_correct:
  assumes "root_ok t" "1 \<le> K" "\<forall>u\<in>#RTree_values t. Nearest (fst u) q \<le> value_max"
  shows "\<exists>vs. RTree_query_nearest (pred_Nearest q K) t = Some (vs, length vs)
            \<and> length vs = min K (size (RTree_values t))
            \<and> mset vs \<subseteq># RTree_values t
            \<and> sorted (map (\<lambda>v. Nearest (fst v) q) vs)
            \<and> (\<forall>u\<in>#(RTree_values t - mset vs). \<forall>v\<in>set vs. Nearest (fst v) q \<le> Nearest (fst u) q)"
proof (cases "root_node_ptr t")
  case None
  then show ?thesis by (simp add: RTree_query_nearest_def RTree_values_def)
next
  case (Some r)
  let ?pred = "pred_Nearest q K"
  let ?e = "(distance_apply ?pred (getBound r) (isLeaf r), r)"
  let ?leafs = "\<lparr>tms_data = [], tms_count = dp_count ?pred\<rparr> :: 'a node truncated_multiset"
  have pc: "dp_count ?pred = K" and pq: "dp_bound ?pred = q" by (simp_all add: pred_Nearest_def)
  from assms(1) Some have rok: "node_ok r" by (simp add: root_ok_def node_ok_def)
  from assms(3) Some have bnd: "\<forall>u\<in>#leaves r. Nearest (fst u) q \<le> value_max"
    by (simp add: RTree_values_def)
  have inv: "nearest_inv q K (ms_emplace ?e []) ?leafs value_max"
    unfolding nearest_inv_def using rok bnd assms(2)
    by (auto simp: ms_emplace_Nil cand_ok_def distance_apply_def pq pc)
  from nearest_loop_correct[OF inv assms(2) pc pq] obtain res
    where res: "nearest_loop ?pred (ms_emplace ?e []) ?leafs value_max = Some res"
      and post: "nearest_post q K (ms_emplace ?e []) ?leafs res" by blast
  have all: "els (tms_data ?leafs) + els (ms_emplace ?e []) = leaves r"
    by (simp add: els_Nil els_Cons ms_emplace_Nil)
  from post have p1: "\<forall>e\<in>set (tms_data res). leaf_ok q e" and p2: "sorted (map fst (tms_data res))"
    and p3: "length (tms_data res) = min K (size (leaves r))"
    and p4: "els (tms_data res) \<subseteq># leaves r"
    and p5: "\<forall>u\<in>#(leaves r - els (tms_data res)). \<forall>e\<in>set (tms_data res). fst e \<le> Nearest (fst u) q"
    unfolding nearest_post_def all by simp_all
  from values_of_leafs[OF p1] obtain vs where vs: "values_of (tms_data res) = Some vs"
    "mset vs = els (tms_data res)" "map (\<lambda>v. Nearest (fst v) q) vs = map fst (tms_data res)"
    by blast
  from vs(3) have len: "length vs = length (tms_data res)" by (metis length_map)
  have dists: "\<exists>e\<in>set (tms_data res). fst e = Nearest (fst v) q" if "v \<in> set vs" for v
  proof -
    from that have "Nearest (fst v) q \<in> set (map (\<lambda>v. Nearest (fst v) q) vs)" by simp
    then show ?thesis unfolding vs(3) by force
  qed
  have "RTree_query_nearest ?pred t = Some (vs, length vs)"
    using Some res vs(1) len by (simp add: RTree_query_nearest_def)
  moreover have "length vs = min K (size (RTree_values t))"
    using p3 len Some by (simp add: RTree_values_def)
  moreover have "mset vs \<subseteq># RTree_values t" using p4 vs(2) Some by (simp add: RTree_values_def)
  moreover have "sorted (map (\<lambda>v. Nearest (fst v) q) vs)" using p2 vs(3) by simp
  moreover have "\<forall>u\<in>#(RTree_values t - mset vs). \<forall>v\<in>set vs. Nearest (fst v) q \<le> Nearest (fst u) q"
  proof (intro ballI)
    fix u v assume u: "u \<in># RTree_values t - mset vs" and v: "v \<in> set vs"
    from dists[OF v] obtain e where e: "e \<in> set (tms_data res)" "fst e = Nearest (fst v) q" by blast
    from u Some vs(2) have "u \<in># leaves r - els (tms_data res)" by (simp add: RTree_values_def)
    with p5 e(1) have "fst e \<le> Nearest (fst u) q" by blast
    then show "Nearest (fst v) q \<le> Nearest (fst u) q" unfolding e(2) .
  qed
  ultimately show ?thesis by blast
qed

text \<open>
  The hypotheses of \<open>nearest_query_correct\<close> hold of the tree with the one value
  \<open>([1,2,3], 7)\<close>, the query point \<open>[0,0,0]\<close> and \<open>K = 1\<close>; the query returns the value.
\<close>

lemma nearest_query_example:
  "RTree_query_nearest (pred_Nearest (point_box [0, 0, 0]) 1)
     \<lparr>root_node_ptr = Some (Page [Leaf (point_box [1, 2, 3], 7::nat)]
                                (stretch empty_bound (point_box [1, 2, 3])))\<rparr>
     = Some ([(point_box [1, 2, 3], 7)], 1)"
proof -
  let ?v = "(point_box [1, 2, 3], 7::nat)"
  let ?t = "\<lparr>root_node_ptr = Some (Page [Leaf ?v] (stretch empty_bound (point_box [1, 2, 3])))\<rparr>"
  have d: "Nearest (point_box [1, 2, 3]) (point_box [0, 0, 0]) = 14"
    by (simp add: Nearest_def point_box_def upt_rec)
  have ok: "root_ok ?t"
    by (simp add: root_ok_def stretch_all_def dim_ok_def point_box_def ndim_def)
  have vals: "RTree_values ?t = {#?v#}" by (simp add: RTree_values_def)
  have far: "\<forall>u\<in>#RTree_values ?t. Nearest (fst u) (point_box [0, 0, 0]) \<le> value_max"
    unfolding vals using value_max_gt by (simp add: d)
  from nearest_query_correct[OF ok _ far, of 1] obtain vs
    where vs: "RTree_query_nearest (pred_Nearest (point_box [0, 0, 0]) 1) ?t = Some (vs, length vs)"
      "length vs = min 1 (size (RTree_values ?t))" "mset vs \<subseteq># RTree_values ?t"
    by auto
  from vs(2) have "length vs = 1" by (simp add: vals)
  then obtain x where x: "vs = [x]" by (cases vs) auto
  with vs(3) have "x = ?v" by (simp add: vals)
  with vs(1) x show ?thesis by simp
qed

text \<open>
  With \<open>K = 0\<close> the test \<open>candidate_leafs.size() >= pred.count()\<close> holds of the empty
  \<open>candidate_leafs\<close>, and the search reads \<open>candidate_leafs.crbegin()->first\<close> at the
  first leaf it reaches.
\<close>

lemma nearest_zero_count:
  assumes "Nearest b q \<le> value_max" "Nearest (fst v) q \<le> value_max"
  shows "RTree_query_nearest (pred_Nearest q 0) \<lparr>root_node_ptr = Some (Page [Leaf v] b)\<rparr> = None"
  using assms
  by (simp add: RTree_query_nearest_def pred_Nearest_def ms_emplace_Nil distance_apply_def
      enqueue_children_def tms_emplace_def tms_truncate_def)

text \<open>
  C1. The distance query \<open>Nearest(t, K)\<close> returns \<open>min(K, |S|)\<close> of the stored values,
  in the order of their distance to \<open>t\<close>, and leaves out no nearer value: for \<open>K\<close> at
  least one this is \<open>nearest_query_correct\<close>. For \<open>K = 0\<close> it is not so. The value
  \<open>([1,2,3], 7)\<close> is inserted into the default-constructed tree of \<open>Quadratic<10,4>\<close>;
  the query for the zero nearest values of the point \<open>[0,0,0]\<close> does not return the
  empty answer, it reads the last element of an empty multiset.
\<close>

theorem nearest_zero_count_undefined:
  "\<exists>t. RTree_insert (Quadratic 10 4) (point_box [1, 2, 3], 7::nat) RTree_new = Some t
       \<and> RTree_values t = {#(point_box [1, 2, 3], 7)#}
       \<and> RTree_query_nearest (pred_Nearest (point_box [0, 0, 0]) 0) t = None"
proof -
  let ?v = "(point_box [1, 2, 3], 7::nat)"
  let ?b = "stretch empty_bound (point_box [1, 2, 3])"
  have b: "?b = point_box [1, 2, 3]"
    using value_max_gt value_lowest_lt
    by (simp add: stretch_def empty_bound_def reset_def point_box_def ndim_def numeral_3_eq_3)
  have d: "Nearest (point_box [1, 2, 3]) (point_box [0, 0, 0]) = 14"
    by (simp add: Nearest_def point_box_def upt_rec)
  have ins: "RTree_insert (Quadratic 10 4) ?v RTree_new = Some \<lparr>root_node_ptr = Some (Page [Leaf ?v] ?b)\<rparr>"
    using insert_first_value[of "Quadratic 10 4" ?v] by (simp add: Quadratic_def)
  have "RTree_query_nearest (pred_Nearest (point_box [0, 0, 0]) 0)
          \<lparr>root_node_ptr = Some (Page [Leaf ?v] ?b)\<rparr> = None"
    by (rule nearest_zero_count) (use value_max_gt in \<open>simp_all add: b d\<close>)
  with ins show ?thesis by (simp add: RTree_values_def)
qed

subsection \<open>The partitions of \<open>RCB::init\<close>\<close>

lemma rcb_rtree_one_point:
  "rcb_rtree (one_point x) = Some \<lparr>root_node_ptr = Some (Page [Leaf (point_box [x, 0, 0], 0)]
                                       (stretch empty_bound (point_box [x, 0, 0])))\<rparr>"
  using insert_first_value[of "Quadratic 10 4" "(point_box [x, 0, 0], 0::nat)"]
  by (simp add: rcb_rtree_def one_point_def rcb_point_def Quadratic_def)


lemma stretch_empty_point:
  assumes "\<bar>a\<bar> \<le> 1000000" "\<bar>b\<bar> \<le> 1000000" "\<bar>c\<bar> \<le> 1000000"
  shows "stretch empty_bound (point_box [a, b, c]) = point_box [a, b, c]"
  using value_max_gt value_lowest_lt assms
  by (simp add: stretch_def empty_bound_def reset_def point_box_def ndim_def numeral_3_eq_3)

lemma two_ranks_ranks:
  "rcb_ranks two_ranks =
     Some [(\<lparr>root_node_ptr = Some (Page [Leaf (point_box [1, 0, 0], 0)] (point_box [1, 0, 0]))\<rparr>, [1]),
           (\<lparr>root_node_ptr = Some (Page [Leaf (point_box [3, 0, 0], 0)] (point_box [3, 0, 0]))\<rparr>, [1])]"
  by (simp add: rcb_ranks_def two_ranks_def rcb_rtree_one_point stretch_empty_point)
     (simp add: one_point_def rcb_weight_def)

lemma two_ranks_global_box:
  "rcb_global_box (\<lambda>x. x - 1/8) (\<lambda>x. x + 1/8)
     [(\<lparr>root_node_ptr = Some (Page [Leaf (point_box [1, 0, 0], 0::nat)] (point_box [1, 0, 0]))\<rparr>, [1]),
      (\<lparr>root_node_ptr = Some (Page [Leaf (point_box [3, 0, 0], 0)] (point_box [3, 0, 0]))\<rparr>, [1])]
   = Some two_ranks_box"
  by (simp add: rcb_global_box_def RTree_bounds_def next_larger_def stretch_def point_box_def
      two_ranks_box_def)

lemma two_ranks_longest: "longest_dimension two_ranks_box = 0"
  by (simp add: longest_dimension_def two_ranks_box_def box_length_def numeral_2_eq_2)

lemma two_ranks_local:
  assumes "1 \<le> x" "x \<le> 3"
  shows "local_split_list
     (\<lparr>root_node_ptr = Some (Page [Leaf (point_box [x, 0, 0], 0::nat)] (point_box [x, 0, 0]))\<rparr>, [1])
     [(two_ranks_box, 2)] = Some [(x * 1, 1)]"
  using assms
  by (simp add: local_split_list_def local_split_def two_ranks_longest)
     (simp add: RTree_query_spatial_def spatial_apply_def pred_ContainedByNonInclusive_def
      Intersects_def ContainsNonInclusive_def point_box_def two_ranks_box_def partial_sum_def
      upper_bound_def center_def)


lemma split_combiner_same_length: "length a = length b \<Longrightarrow> split_combiner a b = b"
  unfolding split_combiner_def
  by (induction a b rule: list_induct2) simp_all

text \<open>The reduction with the combiner of \<open>init\<close> gives back the list of the last rank.\<close>

lemma all_reduce_split_combiner:
  assumes "in_values \<noteq> []" "\<forall>l\<in>set in_values. length l = n"
  shows "all_reduce split_combiner in_values = last in_values"
proof -
  have "foldl split_combiner a ls = last (a # ls)"
    if "length a = n" "\<forall>l\<in>set ls. length l = n" for a ls
    using that by (induction ls arbitrary: a) (simp_all add: split_combiner_same_length)
  from this[of "hd in_values" "tl in_values"] assms show ?thesis
    by (cases in_values) (simp_all add: all_reduce_def)
qed

lemma those_Some: "those xs = Some ys \<Longrightarrow> xs = map Some ys"
  by (induction xs arbitrary: ys) (auto split: option.splits)

lemma local_split_list_length:
  "local_split_list rank boxes_to_split = Some l \<Longrightarrow> length l = length boxes_to_split"
  unfolding local_split_list_def by (drule those_Some) (metis length_map)

text \<open>
  C2. In every round the global split of a pending box is the weighted mean of the
  ranks' local splits, the reduction summing both components. The code does not sum:
  whenever the reduced list of a round is defined, it is the list that the last rank
  contributed, so that every box is cut at the local split of the last rank.
\<close>

theorem global_split_is_last_rank:
  assumes "ranks \<noteq> []" "global_split_list ranks boxes_to_split = Some global"
  shows "local_split_list (last ranks) boxes_to_split = Some global"
proof -
  let ?f = "\<lambda>rank. local_split_list rank boxes_to_split"
  from assms(2) obtain lists where L: "those (map ?f ranks) = Some lists"
    and g: "global = all_reduce split_combiner lists"
    by (auto simp: global_split_list_def)
  from those_Some[OF L] have m: "map ?f ranks = map Some lists" .
  then have "length lists = length ranks" by (metis length_map)
  with assms(1) have ne: "lists \<noteq> []" by auto
  from m have "last (map ?f ranks) = last (map Some lists)" by simp
  with assms(1) ne have lst: "?f (last ranks) = Some (last lists)" by (simp add: last_map)
  have "length l = length boxes_to_split" if "l \<in> set lists" for l
  proof -
    from that have "Some l \<in> set (map ?f ranks)" unfolding m by simp
    then obtain rank where "?f rank = Some l" by auto
    then show ?thesis by (rule local_split_list_length)
  qed
  then have "all_reduce split_combiner lists = last lists"
    using all_reduce_split_combiner[OF ne] by blast
  with g lst show ?thesis by simp
qed

text \<open>
  Two ranks hold one point of weight one each, at \<open>x = 1\<close> and at \<open>x = 3\<close>. In the
  first round the pending box is the global box, for two partitions; the ranks
  contribute \<open>(1 \<cdot> 1, 1)\<close> and \<open>(3 \<cdot> 1, 1)\<close>. The reduced pair is \<open>(3, 1)\<close> and the box is
  cut at \<open>3\<close>; the sum of the contributions is \<open>(4, 2)\<close>, the weighted mean \<open>2\<close>.
\<close>

lemma two_ranks_global:
  "global_split_list
     [(\<lparr>root_node_ptr = Some (Page [Leaf (point_box [1, 0, 0], 0::nat)] (point_box [1, 0, 0]))\<rparr>, [1]),
      (\<lparr>root_node_ptr = Some (Page [Leaf (point_box [3, 0, 0], 0)] (point_box [3, 0, 0]))\<rparr>, [1])]
     [(two_ranks_box, 2)] = Some [(3, 1)]"
  using two_ranks_local[of 1] two_ranks_local[of 3]
  by (simp add: global_split_list_def all_reduce_def split_combiner_def)

lemma two_ranks_sum: "all_reduce sum_combiner [[(1 * 1, 1)], [(3 * 1, 1)]] = [(4, 2)]"
  by (simp add: all_reduce_def sum_combiner_def)

lemma two_ranks_init:
  "rcb_init (\<lambda>x. x - 1/8) (\<lambda>x. x + 1/8) two_ranks
     = Some [\<lparr>min_corner = [7/8, -1/8, -1/8], max_corner = [3, 1/8, 1/8]\<rparr>,
             \<lparr>min_corner = [3, -1/8, -1/8], max_corner = [25/8, 1/8, 1/8]\<rparr>]"
proof -
  let ?r1 = "(\<lparr>root_node_ptr = Some (Page [Leaf (point_box [1, 0, 0], 0::nat)] (point_box [1, 0, 0]))\<rparr>, [1::real])"
  let ?r3 = "(\<lparr>root_node_ptr = Some (Page [Leaf (point_box [3, 0, 0], 0::nat)] (point_box [3, 0, 0]))\<rparr>, [1::real])"
  let ?ranks = "[?r1, ?r3]"
  have round: "rcb_round ?ranks [(two_ranks_box, 2)] []
      = Some ([\<lparr>min_corner = [7/8, -1/8, -1/8], max_corner = [3, 1/8, 1/8]\<rparr>,
               \<lparr>min_corner = [3, -1/8, -1/8], max_corner = [25/8, 1/8, 1/8]\<rparr>], [])"
    by (simp add: rcb_round_def two_ranks_global split_step_def two_ranks_longest)
       (simp add: split_box_def box_set_def place_box_def set_insert_def strict_weak_order_def box_less_def box_min_def
          two_ranks_box_def upt_rec)
  have len: "length two_ranks = 2" by (simp add: two_ranks_def)
  have "rcb_loop ?ranks [(two_ranks_box, 2)] []
      = Some [\<lparr>min_corner = [7/8, -1/8, -1/8], max_corner = [3, 1/8, 1/8]\<rparr>,
              \<lparr>min_corner = [3, -1/8, -1/8], max_corner = [25/8, 1/8, 1/8]\<rparr>]"
    by (subst rcb_loop.simps, simp add: round, subst rcb_loop.simps, simp)
  then show ?thesis
    by (simp add: rcb_init_def two_ranks_ranks two_ranks_global_box len)
qed

theorem global_split_is_last_rank_witness:
  "\<exists>ranks global_box.
      rcb_ranks two_ranks = Some ranks \<and> ranks \<noteq> []
    \<and> rcb_global_box (\<lambda>x. x - 1/8) (\<lambda>x. x + 1/8) ranks = Some global_box
    \<and> map (\<lambda>rank. local_split_list rank [(global_box, 2)]) ranks = [Some [(1 * 1, 1)], Some [(3 * 1, 1)]]
    \<and> global_split_list ranks [(global_box, 2)] = Some [(3, 1)]
    \<and> local_split_list (last ranks) [(global_box, 2)] = Some [(3, 1)]
    \<and> all_reduce sum_combiner [[(1 * 1, 1)], [(3 * 1, 1)]] = [(4, 2)]"
proof -
  let ?r1 = "(\<lparr>root_node_ptr = Some (Page [Leaf (point_box [1, 0, 0], 0::nat)] (point_box [1, 0, 0]))\<rparr>, [1::real])"
  let ?r3 = "(\<lparr>root_node_ptr = Some (Page [Leaf (point_box [3, 0, 0], 0::nat)] (point_box [3, 0, 0]))\<rparr>, [1::real])"
  have last: "local_split_list (last [?r1, ?r3]) [(two_ranks_box, 2)] = Some [(3, 1)]"
    by (rule global_split_is_last_rank[OF _ two_ranks_global]) simp
  show ?thesis
    using two_ranks_ranks two_ranks_global_box two_ranks_local[of 1] two_ranks_local[of 3]
      two_ranks_global last two_ranks_sum
    by simp
qed

text \<open>Insertion into a root page that holds leaves and has room.\<close>

lemma insert_flat:
  assumes "cs \<noteq> []" "isLeaf (hd cs)" "length cs < max_children S"
  shows "RTree_insert S v \<lparr>root_node_ptr = Some (Page cs b)\<rparr>
           = Some \<lparr>root_node_ptr = Some (Page (cs @ [Leaf v]) (stretch b (fst v)))\<rparr>"
proof -
  from assms(1) obtain front rest where cs: "cs = front # rest" by (cases cs) auto
  with assms(2) have "find_best_fit_in_node (fst v) (Page cs b) = Some 0"
    by (simp add: find_best_fit_in_node_def)
  with cs assms(2) have "descend (fst v) (Page cs b) [] = Some (Page cs b, [])"
    by (simp add: descend.simps)
  with assms(3) show ?thesis
    by (simp add: RTree_insert_def tree_insert_def find_best_fit_in_tree_def)
qed

lemma three_points_rtree: "rcb_rtree three_points = Some (fst three_points_rank)"
proof -
  let ?S = "Quadratic 10 4 :: nat splitting"
  have m: "max_children ?S = 10" by (simp add: Quadratic_def)
  have pts: "rcb_point three_points 0 = [1, 0, 0]" "rcb_point three_points (Suc 0) = [1, 0, 0]"
    "rcb_point three_points 2 = [5, 0, 0]"
    by (simp_all add: rcb_point_def three_points_def)
  have i0: "RTree_insert ?S (point_box [1, 0, 0], 0::nat) RTree_new
      = Some \<lparr>root_node_ptr = Some (Page [Leaf (point_box [1, 0, 0], 0)] (point_box [1, 0, 0]))\<rparr>"
    using insert_first_value[of ?S "(point_box [1, 0, 0], 0::nat)"]
    by (simp add: m stretch_empty_point)
  have i1: "RTree_insert ?S (point_box [1, 0, 0], Suc 0)
       \<lparr>root_node_ptr = Some (Page [Leaf (point_box [1, 0, 0], 0)] (point_box [1, 0, 0]))\<rparr>
      = Some \<lparr>root_node_ptr = Some (Page [Leaf (point_box [1, 0, 0], 0), Leaf (point_box [1, 0, 0], Suc 0)]
                                         (point_box [1, 0, 0]))\<rparr>"
    by (subst insert_flat) (simp_all add: m stretch_def point_box_def)
  have i2: "RTree_insert ?S (point_box [5, 0, 0], 2::nat)
       \<lparr>root_node_ptr = Some (Page [Leaf (point_box [1, 0, 0], 0), Leaf (point_box [1, 0, 0], Suc 0)]
                                         (point_box [1, 0, 0]))\<rparr>
      = Some (fst three_points_rank)"
    by (subst insert_flat) (simp_all add: m stretch_def point_box_def three_points_rank_def)
  have "[0 ..< local_count three_points] = [0, 1, 2]"
    by (simp add: three_points_def upt_rec)
  then show ?thesis
    by (simp add: rcb_rtree_def pts i0 i1 i2)
qed

lemma three_ranks_ranks:
  "rcb_ranks three_ranks = Some [three_points_rank, three_points_rank, three_points_rank]"
proof -
  have "rcb_weight three_points = snd three_points_rank"
    by (simp add: rcb_weight_def three_points_def three_points_rank_def numeral_3_eq_3)
  then show ?thesis
    by (simp add: rcb_ranks_def three_ranks_def three_points_rtree)
qed

lemma three_ranks_global_box:
  "rcb_global_box dn up [three_points_rank, three_points_rank, three_points_rank]
     = Some (three_ranks_box dn up)"
  by (simp add: rcb_global_box_def RTree_bounds_def next_larger_def stretch_def three_points_rank_def
      three_ranks_box_def)

lemma three_ranks_longest:
  assumes "dn 1 < 1" "up 0 - dn 0 \<le> up 5 - 1"
  shows "longest_dimension (three_ranks_box dn up) = 0" "longest_dimension (three_ranks_hgh dn up) = 0"
  using assms
  by (simp_all add: longest_dimension_def three_ranks_box_def three_ranks_hgh_def box_length_def
      numeral_2_eq_2)

lemma three_ranks_query:
  assumes "dn 1 < 1" "5 < up 5" "dn 0 \<le> 0" "0 < up 0"
  shows "fst (RTree_query_spatial (spatial_apply (pred_ContainedByNonInclusive (three_ranks_box dn up)))
          (fst three_points_rank))
     = [(point_box [1, 0, 0], 0), (point_box [1, 0, 0], 1), (point_box [5, 0, 0], 2)]"
    and "fst (RTree_query_spatial (spatial_apply (pred_ContainedByNonInclusive (three_ranks_hgh dn up)))
          (fst three_points_rank))
     = [(point_box [1, 0, 0], 0), (point_box [1, 0, 0], 1), (point_box [5, 0, 0], 2)]"
  using assms
  by (simp_all add: RTree_query_spatial_def spatial_apply_def pred_ContainedByNonInclusive_def
      Intersects_def ContainsNonInclusive_def point_box_def three_ranks_box_def three_ranks_hgh_def
      three_points_rank_def)

lemma three_ranks_local:
  assumes "dn 1 < 1" "5 < up 5" "dn 0 \<le> 0" "0 < up 0" "up 0 - dn 0 \<le> up 5 - 1"
  shows "local_split_list three_points_rank [(three_ranks_box dn up, 3)] = Some [(1 * 3, 3)]"
    and "local_split_list three_points_rank [(three_ranks_hgh dn up, 2)] = Some [(1 * 3, 3)]"
  by (simp_all add: local_split_list_def local_split_def three_ranks_longest[OF assms(1,5)]
        three_ranks_query[OF assms(1-4)])
     (simp_all add: three_points_rank_def point_box_def center_def partial_sum_def upper_bound_def)

lemma three_ranks_global:
  assumes "dn 1 < 1" "5 < up 5" "dn 0 \<le> 0" "0 < up 0" "up 0 - dn 0 \<le> up 5 - 1"
  shows "global_split_list [three_points_rank, three_points_rank, three_points_rank]
           [(three_ranks_box dn up, 3)] = Some [(3, 3)]"
    and "global_split_list [three_points_rank, three_points_rank, three_points_rank]
           [(three_ranks_hgh dn up, 2)] = Some [(3, 3)]"
  by (simp_all add: global_split_list_def three_ranks_local[OF assms] all_reduce_def split_combiner_def)

lemma three_ranks_round_1:
  assumes "dn 1 < 1" "5 < up 5" "dn 0 \<le> 0" "0 < up 0" "up 0 - dn 0 \<le> up 5 - 1"
  shows "rcb_round [three_points_rank, three_points_rank, three_points_rank]
           [(three_ranks_box dn up, 3)] []
     = Some ([three_ranks_low dn up], [(three_ranks_hgh dn up, 2)])"
  by (simp add: rcb_round_def three_ranks_global[OF assms] split_step_def
        three_ranks_longest[OF assms(1,5)])
     (simp add: split_box_def box_set_def place_box_def set_insert_def strict_weak_order_def
        box_less_def box_min_def three_ranks_box_def three_ranks_low_def three_ranks_hgh_def upt_rec)

text \<open>
  In the second round the box \<open>three_ranks_hgh\<close> is cut at its own lower face. Its two
  halves have the same minimum corner: the second is equivalent to the first under
  \<open>Box::less\<close>, and \<open>final_boxes.insert\<close> does not take it.
\<close>

lemma three_ranks_round_2:
  assumes "dn 1 < 1" "5 < up 5" "dn 0 \<le> 0" "0 < up 0" "up 0 - dn 0 \<le> up 5 - 1"
  shows "rcb_round [three_points_rank, three_points_rank, three_points_rank]
           [(three_ranks_hgh dn up, 2)] [three_ranks_low dn up]
     = Some ([three_ranks_low dn up, three_ranks_hgh_low dn up], [])"
  using assms(1)
  by (simp add: rcb_round_def three_ranks_global[OF assms] split_step_def
        three_ranks_longest[OF assms(1,5)])
     (simp add: split_box_def box_set_def place_box_def set_insert_def strict_weak_order_def box_less_def box_min_def
        three_ranks_low_def three_ranks_hgh_def three_ranks_hgh_low_def upt_rec)

text \<open>
  C5. On a communicator of \<open>R\<close> ranks with non-empty point clouds \<open>init\<close> produces \<open>R\<close>
  boxes. Three ranks hold the same three points of weight one, \<open>(1,0,0)\<close> twice and
  \<open>(5,0,0)\<close>. Whatever the steps of \<open>nexttoward\<close> around the global box are, as long as
  they move its faces outwards and leave the \<open>x\<close> extent the longest, \<open>init\<close>
  returns and \<open>m_bounds\<close> holds two boxes for the three ranks.
\<close>

theorem rcb_init_two_boxes_for_three_ranks:
  assumes "dn 1 < 1" "5 < up 5" "dn 0 \<le> 0" "0 < up 0" "up 0 - dn 0 \<le> up 5 - 1"
  shows "\<exists>m_bounds. rcb_init dn up three_ranks = Some m_bounds
           \<and> m_bounds = [three_ranks_low dn up, three_ranks_hgh_low dn up]
           \<and> length m_bounds = 2 \<and> length three_ranks = 3"
proof -
  let ?ranks = "[three_points_rank, three_points_rank, three_points_rank]"
  have len: "length three_ranks = 3" by (simp add: three_ranks_def)
  have "rcb_loop ?ranks [] [three_ranks_low dn up, three_ranks_hgh_low dn up]
      = Some [three_ranks_low dn up, three_ranks_hgh_low dn up]"
    by (subst rcb_loop.simps) simp
  then have "rcb_loop ?ranks [(three_ranks_hgh dn up, 2)] [three_ranks_low dn up]
      = Some [three_ranks_low dn up, three_ranks_hgh_low dn up]"
    by (subst rcb_loop.simps) (simp add: three_ranks_round_2[OF assms])
  then have "rcb_loop ?ranks [(three_ranks_box dn up, 3)] []
      = Some [three_ranks_low dn up, three_ranks_hgh_low dn up]"
    by (subst rcb_loop.simps) (simp add: three_ranks_round_1[OF assms])
  then have "rcb_init dn up three_ranks = Some [three_ranks_low dn up, three_ranks_hgh_low dn up]"
    by (simp add: rcb_init_def three_ranks_ranks three_ranks_global_box len)
  with len show ?thesis by simp
qed

text \<open>With steps of \<open>1/8\<close>: the two boxes that \<open>init\<close> returns for the three ranks.\<close>

theorem rcb_init_two_boxes_for_three_ranks_witness:
  "rcb_init (\<lambda>x. x - 1/8) (\<lambda>x. x + 1/8) three_ranks
       = Some [\<lparr>min_corner = [7/8, -1/8, -1/8], max_corner = [1, 1/8, 1/8]\<rparr>,
               \<lparr>min_corner = [1, -1/8, -1/8], max_corner = [1, 1/8, 1/8]\<rparr>]
   \<and> length three_ranks = 3"
  using rcb_init_two_boxes_for_three_ranks[of "\<lambda>x. x - 1/8" "\<lambda>x. x + 1/8"]
  by (simp add: three_ranks_low_def three_ranks_hgh_low_def)

subsection \<open>\<open>split_node\<close> on boxes of a volume beyond the largest double\<close>

lemma huge_pos: "0 < huge"
  by (simp add: huge_def)

lemma huge_area: "area huge_box = PInf"
proof -
  have 2: "huge * huge = 2 ^ 800" and 3: "huge * huge * huge = 2 ^ 1200"
    unfolding huge_def by (simp_all flip: power_add)
  have f1: "fround huge = Fin huge" unfolding huge_def by (rule fround_pow2) simp
  have f2: "fround (huge * huge) = Fin (huge * huge)" unfolding 2 by (rule fround_pow2) simp
  have f3: "fround (huge * huge * huge) = PInf" unfolding 3 by (rule fround_overflow) simp
  show ?thesis by (simp add: area_def huge_box_def f1 f2 f3)
qed

lemma huge_union: "box_Union huge_box huge_box = huge_box"
  by (simp add: box_Union_def stretch_def huge_box_def)

lemma huge_seeds_step:
  "quadratic_seeds_step (i, Leaf (huge_box, k)) (Fin value_lowest, None) (j, Leaf (huge_box, l))
     = (Fin value_lowest, None)"
  by (simp add: quadratic_seeds_step_def node_area_def huge_area huge_union Let_def)

lemma huge_pick_seeds:
  "quadratic_pick_seeds pb (enumerate 0 (nodes huge_page)) = None"
  by (simp add: quadratic_pick_seeds_def huge_page_def enumerate_eq_zip upt_rec huge_seeds_step)


lemma huge_split: "split_node (Quadratic 4 2) huge_page = None"
  using huge_pick_seeds[of huge_box]
  by (simp add: split_node_def huge_page_def Quadratic_def)

lemma huge_tree_4:
  "huge_tree 4 = Some \<lparr>root_node_ptr = Some (Page [Leaf (huge_box, 0), Leaf (huge_box, 1),
                                        Leaf (huge_box, 2), Leaf (huge_box, 3)] huge_box)\<rparr>"
proof -
  let ?S = "Quadratic 4 2 :: nat splitting"
  have m: "max_children ?S = 4" by (simp add: Quadratic_def)
  have e: "stretch empty_bound huge_box = huge_box"
    using value_max_gt value_lowest_lt huge_pos
    by (simp add: stretch_def empty_bound_def reset_def huge_box_def ndim_def numeral_3_eq_3)
  have s: "stretch huge_box huge_box = huge_box"
    by (simp add: stretch_def huge_box_def)
  have i0: "RTree_insert ?S (huge_box, 0::nat) RTree_new
      = Some \<lparr>root_node_ptr = Some (Page [Leaf (huge_box, 0)] huge_box)\<rparr>"
    using insert_first_value[of ?S "(huge_box, 0::nat)"] by (simp add: m e)
  have i: "RTree_insert ?S (huge_box, k) \<lparr>root_node_ptr = Some (Page cs huge_box)\<rparr>
      = Some \<lparr>root_node_ptr = Some (Page (cs @ [Leaf (huge_box, k)]) huge_box)\<rparr>"
    if "cs \<noteq> []" "isLeaf (hd cs)" "length cs < 4" for cs and k :: nat
    using insert_flat[of cs ?S "(huge_box, k)" huge_box] that by (simp add: m s)
  have "[0 ..< 4] = [0, Suc 0, 2, 3]" by (simp add: upt_rec)
  then show ?thesis
    by (simp add: huge_tree_def i0 i)
qed

text \<open>Five values at one point: the parent's bound has no extent, and \<open>0 / 0\<close> is not a number.\<close>

lemma same_pick_seeds:
  "linear_pick_seeds (point_box [1, 2, 3]) (enumerate 0 (nodes same_page)) = None"
  using value_max_gt value_lowest_lt
  by (simp add: linear_pick_seeds_def same_page_def enumerate_eq_zip upt_rec ndim_def
      linear_dim_step_def linear_child_step_def leaf_at_def point_box_def box_min_def box_max_def
      fround_simps Let_def)

lemma same_split: "split_node (Linear 4 2) same_page = None"
  using same_pick_seeds
  by (simp add: split_node_def same_page_def Linear_def)

lemma same_tree_4:
  "same_tree 4 = Some \<lparr>root_node_ptr = Some (Page [leaf_at [1, 2, 3] 0, leaf_at [1, 2, 3] 1,
                                        leaf_at [1, 2, 3] 2, leaf_at [1, 2, 3] 3] (point_box [1, 2, 3]))\<rparr>"
proof -
  let ?S = "Linear 4 2 :: nat splitting"
  let ?b = "point_box [1, 2, 3]"
  have m: "max_children ?S = 4" by (simp add: Linear_def)
  have e: "stretch empty_bound ?b = ?b" by (rule stretch_empty_point) simp_all
  have s: "stretch ?b ?b = ?b" by (simp add: stretch_def point_box_def)
  have i0: "RTree_insert ?S (?b, 0::nat) RTree_new
      = Some \<lparr>root_node_ptr = Some (Page [Leaf (?b, 0)] ?b)\<rparr>"
    using insert_first_value[of ?S "(?b, 0::nat)"] by (simp add: m e)
  have i: "RTree_insert ?S (?b, k) \<lparr>root_node_ptr = Some (Page cs ?b)\<rparr>
      = Some \<lparr>root_node_ptr = Some (Page (cs @ [Leaf (?b, k)]) ?b)\<rparr>"
    if "cs \<noteq> []" "isLeaf (hd cs)" "length cs < 4" for cs and k :: nat
    using insert_flat[of cs ?S "(?b, k)" ?b] that by (simp add: m s)
  have "[0 ..< 4] = [0, Suc 0, 2, 3]" by (simp add: upt_rec)
  then show ?thesis
    by (simp add: same_tree_def i0 i leaf_at_def)
qed

text \<open>
  C3. For every page with \<open>max_children + 1\<close> children \<open>split_node\<close> returns two pages
  that hold the children of the page between them, \<open>min_children\<close> to \<open>max_children\<close>
  each. It does so whenever \<open>pick_seeds\<close> answers two children and \<open>pick_next\<close> a child
  (\<open>split_node_postcondition\<close>), but not on every page.

  Five values at the point \<open>(1,2,3)\<close> are inserted into the tree of \<open>Linear<4,2>\<close>. Four
  inserts give a root with four leaves; the fifth overflows the root and calls
  \<open>split_node\<close> on a page of five children. In every dimension \<open>pick_seeds\<close> divides
  zero by the extent of the page, which is zero: no scaled length is above \<open>lowest()\<close>,
  the first seed stays the null pointer and \<open>assert(ans.first)\<close> fails.

  Five values with the cube \<open>[0, 2\<^sup>4\<^sup>0\<^sup>0]\<^sup>3\<close> as their box are inserted into the tree of
  \<open>Quadratic<4,2>\<close>. On the page of five children every area is infinite and every
  wasted area not a number, so that \<open>pick_seeds\<close> finds no pair above \<open>lowest()\<close>, answers
  two null pointers and fails \<open>assert(ans.first)\<close>.

  In both cases \<open>split_node\<close> does not return, and neither does the insert.
\<close>

theorem split_node_does_not_return:
  "(\<exists>t. same_tree 4 = Some t
      \<and> root_node_ptr t = Some (Page [leaf_at [1, 2, 3] 0, leaf_at [1, 2, 3] 1, leaf_at [1, 2, 3] 2,
                                       leaf_at [1, 2, 3] 3] (point_box [1, 2, 3]))
      \<and> RTree_insert (Linear 4 2) (point_box [1, 2, 3], 4) t = None)
   \<and> length (nodes same_page) = max_children (Linear 4 2 :: nat splitting) + 1
   \<and> node_ok same_page
   \<and> split_node (Linear 4 2) same_page = None
   \<and> (\<exists>t. huge_tree 4 = Some t
      \<and> root_node_ptr t = Some (Page [Leaf (huge_box, 0), Leaf (huge_box, 1), Leaf (huge_box, 2),
                                       Leaf (huge_box, 3)] huge_box)
      \<and> RTree_insert (Quadratic 4 2) (huge_box, 4) t = None)
   \<and> length (nodes huge_page) = max_children (Quadratic 4 2 :: nat splitting) + 1
   \<and> node_ok huge_page
   \<and> split_node (Quadratic 4 2) huge_page = None"
proof -
  let ?L = "Linear 4 2 :: nat splitting" and ?Q = "Quadratic 4 2 :: nat splitting"
  let ?b = "point_box [1, 2, 3]"
  let ?ss = "[leaf_at [1, 2, 3] 0, leaf_at [1, 2, 3] 1, leaf_at [1, 2, 3] 2, leaf_at [1, 2, 3] (3::nat)]"
  let ?hs = "[Leaf (huge_box, 0::nat), Leaf (huge_box, 1), Leaf (huge_box, 2), Leaf (huge_box, 3)]"
  have mL: "max_children ?L = 4" by (simp add: Linear_def)
  have mQ: "max_children ?Q = 4" by (simp add: Quadratic_def)
  have dS: "descend ?b (Page ?ss ?b) [] = Some (Page ?ss ?b, [])"
    by (simp add: descend.simps find_best_fit_in_node_def leaf_at_def)
  have sS: "stretch ?b ?b = ?b" by (simp add: stretch_def point_box_def)
  have iS: "RTree_insert ?L (?b, 4) \<lparr>root_node_ptr = Some (Page ?ss ?b)\<rparr> = None"
    using same_split dS
    by (simp add: RTree_insert_def tree_insert_def find_best_fit_in_tree_def mL sS same_page_def
        leaf_at_def)
  have okS: "node_ok same_page"
    using value_max_gt value_lowest_lt
    by (simp add: node_ok_def same_page_def leaf_at_def stretch_all_def dim_ok_def ndim_def
        empty_bound_def reset_def stretch_def point_box_def numeral_3_eq_3)
  have lS: "length (nodes same_page) = max_children ?L + 1" by (simp add: same_page_def mL)
  have dH: "descend huge_box (Page ?hs huge_box) [] = Some (Page ?hs huge_box, [])"
    by (simp add: descend.simps find_best_fit_in_node_def)
  have sH: "stretch huge_box huge_box = huge_box" by (simp add: stretch_def huge_box_def)
  have iH: "RTree_insert ?Q (huge_box, 4) \<lparr>root_node_ptr = Some (Page ?hs huge_box)\<rparr> = None"
    using huge_split dH
    by (simp add: RTree_insert_def tree_insert_def find_best_fit_in_tree_def mQ sH huge_page_def)
  have okH: "node_ok huge_page"
    using value_max_gt value_lowest_lt huge_pos
    by (simp add: node_ok_def huge_page_def stretch_all_def dim_ok_def ndim_def empty_bound_def
        reset_def stretch_def huge_box_def numeral_3_eq_3)
  have lH: "length (nodes huge_page) = max_children ?Q + 1" by (simp add: huge_page_def mQ)
  show ?thesis
    using same_tree_4 iS lS okS same_split huge_tree_4 iH lH okH huge_split by simp
qed

end
